theory Spec2Isabelle
  imports Main "HOL-Library.AList" "HOL-Library.Multiset" "HOL-Library.Sublist"
begin

section \<open>Strings and POSIX paths\<close>

text \<open>
  The generated-code provider (class \<open>SourceProviderCodeCache\<close>) handles file names
  with Node's \<open>path\<close> module. The functions below follow the POSIX variant of that
  module: a path string is cut at every \<open>/\<close>, the empty and \<open>.\<close> segments are
  dropped and a \<open>..\<close> segment removes the segment before it.
\<close>

text \<open>\<open>String.prototype.split(sep)\<close> for a one-character separator.\<close>

fun splitOn :: "char \<Rightarrow> string \<Rightarrow> string list" where
  "splitOn c [] = [[]]"
| "splitOn c (x # xs) =
     (if x = c then [] # splitOn c xs
      else (case splitOn c xs of [] \<Rightarrow> [[x]] | s # ss \<Rightarrow> (x # s) # ss))"

text \<open>\<open>Array.prototype.join(sep)\<close> on an array of strings.\<close>

fun joinWith :: "string \<Rightarrow> string list \<Rightarrow> string" where
  "joinWith sep [] = []"
| "joinWith sep [x] = x"
| "joinWith sep (x # y # ys) = x @ sep @ joinWith sep (y # ys)"

text \<open>
  One step of Node's \<open>normalizeString\<close>: \<open>res\<close> is the list of segments kept so far.
\<close>

definition normStep :: "bool \<Rightarrow> string list \<Rightarrow> string \<Rightarrow> string list" where
  "normStep allowAboveRoot res seg =
     (if seg = [] \<or> seg = ''.'' then res
      else if seg = ''..'' then
        (if res \<noteq> [] \<and> last res \<noteq> ''..'' then butlast res
         else if allowAboveRoot then res @ [''..'']
         else res)
      else res @ [seg])"

definition normalizeString :: "string list \<Rightarrow> bool \<Rightarrow> string list" where
  "normalizeString segs allowAboveRoot = foldl (normStep allowAboveRoot) [] segs"

definition isAbsolute :: "string \<Rightarrow> bool" where
  "isAbsolute p = (p \<noteq> [] \<and> hd p = CHR ''/'')"

definition trailingSeparator :: "string \<Rightarrow> bool" where
  "trailingSeparator p = (p \<noteq> [] \<and> last p = CHR ''/'')"

text \<open>\<open>path.normalize\<close>.\<close>

definition pathNormalize :: "string \<Rightarrow> string" where
  "pathNormalize p =
     (if p = [] then ''.''
      else
        let s = joinWith ''/'' (normalizeString (splitOn CHR ''/'' p) (\<not> isAbsolute p))
        in if s = [] then
             (if isAbsolute p then ''/''
              else if trailingSeparator p then ''./'' else ''.'')
           else
             (if isAbsolute p then ''/'' else [])
               @ s @ (if trailingSeparator p then ''/'' else []))"

text \<open>\<open>path.join\<close> with two arguments: empty arguments are skipped.\<close>

definition pathJoin :: "string \<Rightarrow> string \<Rightarrow> string" where
  "pathJoin a b =
     (if a = [] \<and> b = [] then ''.''
      else if a = [] then pathNormalize b
      else if b = [] then pathNormalize a
      else pathNormalize (a @ ''/'' @ b))"

text \<open>
  \<open>path.dirname\<close>: the trailing slashes and the last segment are cut off; the first
  character is never looked at by the scan.
\<close>

definition pathDirname :: "string \<Rightarrow> string" where
  "pathDirname p =
     (if p = [] then ''.''
      else
        let r = dropWhile (\<lambda>c. c \<noteq> CHR ''/'')
                  (dropWhile (\<lambda>c. c = CHR ''/'') (rev (tl p)))
        in if r = [] then (if hd p = CHR ''/'' then ''/'' else ''.'')
           else if hd p = CHR ''/'' \<and> tl r = [] then ''//''
           else hd p # rev (tl r))"

text \<open>
  The segments a path string denotes in the file system: a relative path is taken from
  the working directory \<open>cwd\<close> of the process (what \<open>path.resolve\<close> computes).
\<close>

definition resolveSegs :: "string \<Rightarrow> string \<Rightarrow> string list" where
  "resolveSegs cwd p =
     normalizeString
       (splitOn CHR ''/'' (if isAbsolute p then p else cwd @ ''/'' @ p)) False"

fun dropCommon :: "string list \<Rightarrow> string list \<Rightarrow> string list \<times> string list" where
  "dropCommon (x # xs) (y # ys) = (if x = y then dropCommon xs ys else (x # xs, y # ys))"
| "dropCommon xs ys = (xs, ys)"

text \<open>\<open>path.relative(from, to)\<close>: both are resolved first.\<close>

definition pathRelative :: "string \<Rightarrow> string \<Rightarrow> string \<Rightarrow> string" where
  "pathRelative cwd from to =
     (case dropCommon (resolveSegs cwd from) (resolveSegs cwd to) of
        (f, t) \<Rightarrow> joinWith ''/'' (replicate (length f) ''..'' @ t))"

text \<open>\<open>s.replace(/\.js$/, '')\<close>.\<close>

definition stripJs :: "string \<Rightarrow> string" where
  "stripJs s =
     (if 3 \<le> length s \<and> drop (length s - 3) s = ''.js'' then take (length s - 3) s else s)"

text \<open>\<open>s.charAt(0) === '.'\<close>.\<close>

definition startsWithDot :: "string \<Rightarrow> bool" where
  "startsWithDot s = (case s of [] \<Rightarrow> False | c # _ \<Rightarrow> c = CHR ''.'')"


section \<open>The file system\<close>

text \<open>
  A directory tree of regular files and directories. The entries of a directory are
  kept in the order \<open>readdirSync\<close> lists them. There are no symbolic links, and paths
  are resolved lexically, as \<open>path.resolve\<close> does: this is the place the kernel reaches
  when every directory the path goes through is there. Access rights are not modelled:
  the only failures are the ones a path can cause.
\<close>

datatype node = File string | Dir "(string \<times> node) list"

datatype error = ENOENT | ENOTDIR | EISDIR | EEXIST

fun lookup :: "node \<Rightarrow> string list \<Rightarrow> node option" where
  "lookup n [] = Some n"
| "lookup n (s # ss) =
     (case n of
        File c \<Rightarrow> None
      | Dir es \<Rightarrow> (case map_of es s of None \<Rightarrow> None | Some ch \<Rightarrow> lookup ch ss))"

text \<open>Removing the entry at a path with all it contains; nothing happens when it is absent.\<close>

fun removeAt :: "node \<Rightarrow> string list \<Rightarrow> node" where
  "removeAt n [] = (case n of File c \<Rightarrow> File c | Dir es \<Rightarrow> Dir [])"
| "removeAt n [s] = (case n of File c \<Rightarrow> File c | Dir es \<Rightarrow> Dir (AList.delete s es))"
| "removeAt n (s # ss) =
     (case n of
        File c \<Rightarrow> File c
      | Dir es \<Rightarrow>
          (case map_of es s of
             None \<Rightarrow> Dir es
           | Some ch \<Rightarrow> Dir (AList.update s (removeAt ch ss) es)))"

text \<open>Creating a directory and the missing directories above it (\<open>mkdir -p\<close>).\<close>

fun mkdirp :: "node \<Rightarrow> string list \<Rightarrow> error + node" where
  "mkdirp n [] = (case n of File c \<Rightarrow> Inl EEXIST | Dir es \<Rightarrow> Inr n)"
| "mkdirp n (s # ss) =
     (case n of
        File c \<Rightarrow> Inl ENOTDIR
      | Dir es \<Rightarrow>
          (case mkdirp (case map_of es s of None \<Rightarrow> Dir [] | Some ch \<Rightarrow> ch) ss of
             Inl e \<Rightarrow> Inl e
           | Inr ch' \<Rightarrow> Inr (Dir (AList.update s ch' es))))"

text \<open>Creating or overwriting a regular file; its directory must exist.\<close>

fun writeAt :: "node \<Rightarrow> string list \<Rightarrow> string \<Rightarrow> error + node" where
  "writeAt n [] content = Inl EISDIR"
| "writeAt n [s] content =
     (case n of
        File c \<Rightarrow> Inl ENOTDIR
      | Dir es \<Rightarrow>
          (case map_of es s of
             Some (Dir d) \<Rightarrow> Inl EISDIR
           | _ \<Rightarrow> Inr (Dir (AList.update s (File content) es))))"
| "writeAt n (s # ss) content =
     (case n of
        File c \<Rightarrow> Inl ENOTDIR
      | Dir es \<Rightarrow>
          (case map_of es s of
             None \<Rightarrow> Inl ENOENT
           | Some ch \<Rightarrow>
               (case writeAt ch ss content of
                  Inl e \<Rightarrow> Inl e
                | Inr ch' \<Rightarrow> Inr (Dir (AList.update s ch' es)))))"

text \<open>The content of the regular file at a path, if there is one.\<close>

definition readFile :: "node \<Rightarrow> string list \<Rightarrow> string option" where
  "readFile n p = (case lookup n p of Some (File c) \<Rightarrow> Some c | _ \<Rightarrow> None)"

subsection \<open>The calls of \<open>fs\<close> and \<open>fs-extra\<close> the provider makes\<close>

text \<open>
  \<open>fs.statSync\<close>: the node a path string names. A path that ends in a slash names a
  directory only.
\<close>

definition statSync :: "string \<Rightarrow> node \<Rightarrow> string \<Rightarrow> error + node" where
  "statSync wd t p =
     (if p = [] then Inl ENOENT
      else case lookup t (resolveSegs wd p) of
        None \<Rightarrow> Inl ENOENT
      | Some (File c) \<Rightarrow> (if trailingSeparator p then Inl ENOTDIR else Inr (File c))
      | Some (Dir es) \<Rightarrow> Inr (Dir es))"

definition isFile :: "node \<Rightarrow> bool" where
  "isFile n = (case n of File c \<Rightarrow> True | Dir es \<Rightarrow> False)"

text \<open>\<open>fs.existsSync\<close> and \<open>fse.pathExistsSync\<close> never throw.\<close>

definition existsSync :: "string \<Rightarrow> node \<Rightarrow> string \<Rightarrow> bool" where
  "existsSync wd t p = (case statSync wd t p of Inl e \<Rightarrow> False | Inr n \<Rightarrow> True)"

definition pathExistsSync :: "string \<Rightarrow> node \<Rightarrow> string \<Rightarrow> bool" where
  "pathExistsSync wd t p = existsSync wd t p"

definition readdirSync :: "string \<Rightarrow> node \<Rightarrow> string \<Rightarrow> error + string list" where
  "readdirSync wd t p =
     (case statSync wd t p of
        Inl e \<Rightarrow> Inl e
      | Inr (File c) \<Rightarrow> Inl ENOTDIR
      | Inr (Dir es) \<Rightarrow> Inr (map fst es))"

definition unlinkSync :: "string \<Rightarrow> node \<Rightarrow> string \<Rightarrow> error + node" where
  "unlinkSync wd t p =
     (case statSync wd t p of
        Inl e \<Rightarrow> Inl e
      | Inr (Dir es) \<Rightarrow> Inl EISDIR
      | Inr (File c) \<Rightarrow> Inr (removeAt t (resolveSegs wd p)))"

definition removeSync :: "string \<Rightarrow> node \<Rightarrow> string \<Rightarrow> error + node" where
  "removeSync wd t p = Inr (removeAt t (resolveSegs wd p))"

definition ensureDirSync :: "string \<Rightarrow> node \<Rightarrow> string \<Rightarrow> error + node" where
  "ensureDirSync wd t p = mkdirp t (resolveSegs wd p)"

definition writeFileSync :: "string \<Rightarrow> node \<Rightarrow> string \<Rightarrow> string \<Rightarrow> error + node" where
  "writeFileSync wd t p content =
     (if p = [] then Inl ENOENT
      else if trailingSeparator p then Inl EISDIR
      else writeAt t (resolveSegs wd p) content)"


section \<open>JavaScript values and objects\<close>

text \<open>
  The values a \<open>define\<close> entry or the package descriptor can hold. An object is the
  list of its own enumerable properties in the order \<open>Object.keys\<close> gives them. A
  number is an integer (the decimal text of other numbers is not modelled); a function
  is its source text, which is what \<open>toString\<close> returns.
\<close>

datatype jsvalue =
    JUndefined
  | JNull
  | JBoolean bool
  | JNumber int
  | JString string
  | JFunction string
  | JArray "jsvalue list"
  | JObject "(string \<times> jsvalue) list"

text \<open>The \<open>typeof\<close> operator.\<close>

fun typeOf :: "jsvalue \<Rightarrow> string" where
  "typeOf JUndefined = ''undefined''"
| "typeOf JNull = ''object''"
| "typeOf (JBoolean b) = ''boolean''"
| "typeOf (JNumber n) = ''number''"
| "typeOf (JString s) = ''string''"
| "typeOf (JFunction f) = ''function''"
| "typeOf (JArray a) = ''object''"
| "typeOf (JObject ps) = ''object''"

definition isArray :: "jsvalue \<Rightarrow> bool" where
  "isArray v = (case v of JArray a \<Rightarrow> True | _ \<Rightarrow> False)"

text \<open>
  \<open>Array.from(new Set(xs))\<close>: a \<open>Set\<close> keeps its members in the order of insertion, and
  adding a member it already has changes nothing.
\<close>

definition setAdd :: "'a list \<Rightarrow> 'a \<Rightarrow> 'a list" where
  "setAdd s x = (if x \<in> set s then s else s @ [x])"

definition arrayFromSet :: "'a list \<Rightarrow> 'a list" where
  "arrayFromSet xs = foldl setAdd [] xs"

text \<open>
  Decimal text of an integer (\<open>Number.prototype.toString\<close>). The numbers of a
  configuration are taken to be integers; these are the digits JavaScript prints for an
  integer a double holds exactly and that is below \<open>1e21\<close>, where the exponent notation
  begins.
\<close>

definition digitChar :: "nat \<Rightarrow> char" where
  "digitChar d = char_of (48 + d)"

fun digits :: "nat \<Rightarrow> string" where
  "digits n = (if n < 10 then [digitChar n] else digits (n div 10) @ [digitChar (n mod 10)])"

declare digits.simps [simp del]

definition numberToString :: "int \<Rightarrow> string" where
  "numberToString i = (if i < 0 then ''-'' @ digits (nat (- i)) else digits (nat i))"

text \<open>Line feed, tab and the double quote, as strings.\<close>

definition LF :: string where "LF = [CHR 0x0A]"
definition TAB :: string where "TAB = [CHR 0x09]"
definition DQ :: string where "DQ = [CHR 0x22]"

text \<open>\<open>JSON.stringify\<close>: a string is quoted and its special characters are escaped.\<close>

definition hexDigit :: "nat \<Rightarrow> char" where
  "hexDigit d = (if d < 10 then char_of (48 + d) else char_of (87 + d))"

definition jsonChar :: "char \<Rightarrow> string" where
  "jsonChar c =
     (if c = CHR 0x22 then [CHR 0x5C, CHR 0x22]
      else if c = CHR 0x5C then [CHR 0x5C, CHR 0x5C]
      else if c = CHR 0x08 then [CHR 0x5C, CHR ''b'']
      else if c = CHR 0x0C then [CHR 0x5C, CHR ''f'']
      else if c = CHR 0x0A then [CHR 0x5C, CHR ''n'']
      else if c = CHR 0x0D then [CHR 0x5C, CHR ''r'']
      else if c = CHR 0x09 then [CHR 0x5C, CHR ''t'']
      else if of_char c < (32 :: nat) then
        [CHR 0x5C, CHR ''u'', CHR ''0'', CHR ''0'',
         hexDigit (of_char c div 16), hexDigit (of_char c mod 16)]
      else [c])"

definition jsonQuote :: "string \<Rightarrow> string" where
  "jsonQuote s = DQ @ concat (map jsonChar s) @ DQ"

text \<open>
  Inside an array an undefined or function member is written \<open>null\<close>; inside an object
  such a property is left out.
\<close>

fun jsonValue :: "jsvalue \<Rightarrow> string" where
  "jsonValue JUndefined = ''null''"
| "jsonValue JNull = ''null''"
| "jsonValue (JBoolean b) = (if b then ''true'' else ''false'')"
| "jsonValue (JNumber n) = numberToString n"
| "jsonValue (JString s) = jsonQuote s"
| "jsonValue (JFunction f) = ''null''"
| "jsonValue (JArray a) = ''['' @ joinWith '','' (map jsonValue a) @ '']''"
| "jsonValue (JObject ps) =
     ''{'' @ joinWith '',''
       (map (\<lambda>(k, v). jsonQuote k @ '':'' @ jsonValue v)
         (filter (\<lambda>(k, v). typeOf v \<noteq> ''undefined'' \<and> typeOf v \<noteq> ''function'') ps)) @ ''}''"

text \<open>
  \<open>`${JSON.stringify(value)}`\<close>: at the top \<open>JSON.stringify\<close> returns \<open>undefined\<close> for an
  undefined value or a function, which the template literal prints as such.
\<close>

definition jsonStringify :: "jsvalue \<Rightarrow> string" where
  "jsonStringify v =
     (if typeOf v = ''undefined'' \<or> typeOf v = ''function'' then ''undefined''
      else jsonValue v)"

text \<open>\<open>`${value.toString()}`\<close> for the two kinds of value \<open>printValue\<close> applies it to.\<close>

definition toString :: "jsvalue \<Rightarrow> string" where
  "toString v = (case v of JNumber n \<Rightarrow> numberToString n | JFunction f \<Rightarrow> f | _ \<Rightarrow> jsonValue v)"

section \<open>Type inference and printing of the defines\<close>

text \<open>The local functions of \<open>generateDefines\<close>.\<close>

fun getGCCType :: "jsvalue \<Rightarrow> string"
  and getArrayContentsType :: "jsvalue list \<Rightarrow> string" where
  "getGCCType value =
     (let jsType = typeOf value in
      if jsType = ''function'' then ''Function''
      else if jsType \<noteq> ''object'' then jsType
      else if value = JNull then ''null''
      else (case value of
              JArray a \<Rightarrow> ''Array<'' @ getArrayContentsType a @ ''>''
            | _ \<Rightarrow> ''Object''))"
| "getArrayContentsType array =
     (if length array = 0 then ''*''
      else joinWith ''|'' (arrayFromSet (map getGCCType array)))"


definition printTypeTag :: "string \<Rightarrow> string" where
  "printTypeTag type = (if type = ''Object'' then ''@struct'' else ''@const {'' @ type @ ''}'')"

definition printJsdoc :: "string list \<Rightarrow> string" where
  "printJsdoc tags = joinWith LF ([''/**''] @ map (\<lambda>tag. '' * '' @ tag) tags @ ['' */'', []])"

definition indent :: "string \<Rightarrow> string" where
  "indent string = TAB @ joinWith (LF @ TAB) (splitOn CHR 0x0A string)"

text \<open>
  \<open>printObject\<close> walks \<open>Object.keys(object)\<close> and reads \<open>object[key]\<close>: these are the
  listed properties. \<open>printValue\<close> is only called with the type inferred from the value,
  so that its \<open>'Object'\<close> branch meets an object.
\<close>

fun printObject :: "(string \<times> jsvalue) list \<Rightarrow> string"
  and printValue :: "string \<Rightarrow> jsvalue \<Rightarrow> string" where
  "printObject object =
     joinWith LF
       [''{'',
        indent (joinWith ('','' @ LF @ LF)
          (map (\<lambda>(key, value).
                  let type = getGCCType value in
                  printJsdoc [printTypeTag type] @ key @ '': '' @ printValue type value)
             object)),
        ''}'']"
| "printValue type value =
     (if type = ''Object'' then
        (case value of JObject ps \<Rightarrow> printObject ps | _ \<Rightarrow> printObject [])
      else if type = ''number'' \<or> type = ''Function'' then toString value
      else jsonStringify value)"

text \<open>The text \<open>generateDefines\<close> builds in its local \<open>content\<close>.\<close>

definition content :: "(string \<times> jsvalue) list \<Rightarrow> string" where
  "content define =
     joinWith (LF @ LF)
       (map (\<lambda>(topLevelKey, value).
               let type = getGCCType value in
               printJsdoc [printTypeTag type]
                 @ ''export const '' @ topLevelKey @ '' = '' @ printValue type value @ '';'')
          define)"

subsection \<open>Objects built by the provider\<close>

text \<open>
  The own keys of an object come in the order of the language: first the array
  indices (canonical decimal numerals below \<open>2^32 - 1\<close>) in ascending order, then the
  other keys in the order they were added.
\<close>

definition indexValue :: "string \<Rightarrow> nat" where
  "indexValue s = foldl (\<lambda>a c. 10 * a + (of_char c - 48)) 0 s"

definition isArrayIndex :: "string \<Rightarrow> bool" where
  "isArrayIndex s =
     (s \<noteq> [] \<and> (\<forall>c \<in> set s. 48 \<le> (of_char c :: nat) \<and> (of_char c :: nat) \<le> 57)
      \<and> (s = ''0'' \<or> hd s \<noteq> CHR ''0'') \<and> indexValue s < 4294967295)"

fun insertIndexKey :: "string \<Rightarrow> 'v \<Rightarrow> (string \<times> 'v) list \<Rightarrow> (string \<times> 'v) list" where
  "insertIndexKey k v [] = [(k, v)]"
| "insertIndexKey k v ((k', v') # ps) =
     (if isArrayIndex k' \<and> indexValue k' < indexValue k then (k', v') # insertIndexKey k v ps
      else (k, v) # (k', v') # ps)"

text \<open>\<open>Object.assign(result, {[k]: v})\<close>.\<close>

definition objectAssign :: "(string \<times> 'v) list \<Rightarrow> string \<Rightarrow> 'v \<Rightarrow> (string \<times> 'v) list" where
  "objectAssign result k v =
     (if k \<notin> fst ` set result \<and> isArrayIndex k then insertIndexKey k v result
      else AList.update k v result)"

section \<open>The provider\<close>

text \<open>
  What the provider is constructed from. \<open>resolveAbsolutePath\<close> is the method of the
  path helper, \<open>render\<close> the one of the template helper, \<open>getPlatforms\<close> the names of the
  platforms of the addon loader and \<open>getExtensions\<close> its extensions; \<open>cwd\<close> is the
  working directory of the process. An extension is its name and its \<open>generateCode\<close>.
\<close>

record buildConfig =
  generatedCode :: string
  projectName :: string
  projectSrc :: string
  projectEntry :: string
  configDefine :: "(string \<times> jsvalue) list"

record extension =
  getName :: string
  generateCode :: "buildConfig \<Rightarrow> (string \<times> string) list"

text \<open>The context objects handed to the three templates.\<close>

datatype templateContext = Platforms "string list" | Path string | Config jsvalue

record provider =
  cwd :: string
  resolveAbsolutePath :: "string \<Rightarrow> string"
  render :: "string \<Rightarrow> templateContext \<Rightarrow> string"
  getPlatforms :: "string list"
  getExtensions :: "extension list"
  buildConfig :: buildConfig
  packageJson :: jsvalue

text \<open>\<open>this._root\<close>, set by the constructor.\<close>

definition root :: "provider \<Rightarrow> string" where
  "root P = resolveAbsolutePath P (generatedCode (buildConfig P))"

text \<open>
  What changes: the file system, the registry \<open>this._files\<close> and the events emitted so
  far (\<open>EVENT_CHANGED\<close> with the file name, and \<open>EVENT_ANY\<close> wrapping it).
\<close>

datatype event = EventChanged string | EventAny string

record state =
  fs :: node
  files :: "string list"
  emitted :: "event list"

text \<open>
  A method returns the state it reaches (\<open>Inr\<close>) or throws (\<open>Inl\<close>): the error and the
  state the provider is left in.
\<close>

type_synonym result = "(error \<times> state) + state"

definition andThen :: "result \<Rightarrow> (state \<Rightarrow> result) \<Rightarrow> result" where
  "andThen r f = (case r of Inl x \<Rightarrow> Inl x | Inr s \<Rightarrow> f s)"

text \<open>\<open>Array.prototype.forEach\<close> with a callback that may throw.\<close>

fun forEach :: "('a \<Rightarrow> state \<Rightarrow> result) \<Rightarrow> 'a list \<Rightarrow> state \<Rightarrow> result" where
  "forEach f [] s = Inr s"
| "forEach f (x # xs) s = (case f x s of Inl e \<Rightarrow> Inl e | Inr s' \<Rightarrow> forEach f xs s')"

text \<open>A call into the file system that replaces the tree or throws.\<close>

definition fsCall :: "(node \<Rightarrow> error + node) \<Rightarrow> state \<Rightarrow> result" where
  "fsCall f s = (case f (fs s) of Inl e \<Rightarrow> Inl (e, s) | Inr t \<Rightarrow> Inr (s\<lparr>fs := t\<rparr>))"

subsection \<open>\<open>_writeFile\<close>\<close>

definition writeFile :: "provider \<Rightarrow> string \<Rightarrow> string \<Rightarrow> state \<Rightarrow> result" where
  "writeFile P src text s =
     (let filename = pathJoin (root P) src;
          dir = pathDirname filename
      in andThen
           (andThen
              (if \<not> existsSync (cwd P) (fs s) dir
               then fsCall (\<lambda>t. ensureDirSync (cwd P) t dir) s
               else Inr s)
              (fsCall (\<lambda>t. writeFileSync (cwd P) t filename text)))
           (\<lambda>s'. Inr (s'\<lparr>files := (if filename \<in> set (files s') then files s'
                                     else files s' @ [filename]),
                          emitted := emitted s' @ [EventChanged filename, EventAny filename]\<rparr>)))"

subsection \<open>\<open>clean\<close>\<close>

text \<open>The callback of the \<open>forEach\<close> in \<open>clean\<close>.\<close>

definition cleanEntry :: "provider \<Rightarrow> string \<Rightarrow> state \<Rightarrow> result" where
  "cleanEntry P filename s =
     (if startsWithDot filename then Inr s
      else
        let src = pathJoin (root P) filename in
        case statSync (cwd P) (fs s) src of
          Inl e \<Rightarrow> Inl (e, s)
        | Inr n \<Rightarrow>
            (if isFile n then fsCall (\<lambda>t. unlinkSync (cwd P) t src) s
             else fsCall (\<lambda>t. removeSync (cwd P) t src) s))"

definition clean :: "provider \<Rightarrow> state \<Rightarrow> result" where
  "clean P s =
     (if \<not> pathExistsSync (cwd P) (fs s) (root P) then Inr s
      else
        case readdirSync (cwd P) (fs s) (root P) of
          Inl e \<Rightarrow> Inl (e, s)
        | Inr filenames \<Rightarrow>
            andThen (forEach (cleanEntry P) filenames s) (\<lambda>s'. Inr (s'\<lparr>files := []\<rparr>)))"


subsection \<open>\<open>generateBaseApp\<close>\<close>

text \<open>
  The local \<open>platformNames\<close>: when \<open>'pc'\<close> is among the names, \<open>splice\<close> takes its first
  occurrence out and \<open>push\<close> puts it at the end.
\<close>

definition platformNames :: "provider \<Rightarrow> string list" where
  "platformNames P =
     (if ''pc'' \<in> set (getPlatforms P) then remove1 ''pc'' (getPlatforms P) @ [''pc'']
      else getPlatforms P)"

text \<open>The local \<open>mainPath\<close>.\<close>

definition mainPath :: "provider \<Rightarrow> string" where
  "mainPath P =
     pathJoin (projectName (buildConfig P))
       (pathRelative (cwd P)
          (resolveAbsolutePath P (projectSrc (buildConfig P)))
          (resolveAbsolutePath P (projectEntry (buildConfig P))))"

definition generateBaseApp :: "provider \<Rightarrow> state \<Rightarrow> result" where
  "generateBaseApp P s =
     andThen
       (andThen
          (writeFile P ''base-application.js''
             (render P ''base-application.js.tpl'' (Platforms (platformNames P))) s)
          (writeFile P ''app.js''
             (render P ''app.js.tpl'' (Path (stripJs (mainPath P))))))
       (writeFile P ''package-info.js''
          (render P ''package-info.js.tpl'' (Config (packageJson P))))"

subsection \<open>Extensions\<close>

text \<open>
  \<open>_resolveAddonRelativeSources\<close>: \<open>reduce\<close> over \<open>Object.keys(sources)\<close>. A key of
  \<open>Object.keys\<close> always has a value, so the \<open>None\<close> branch is never taken.
\<close>

definition resolveAddonRelativeSources ::
  "extension \<Rightarrow> (string \<times> string) list \<Rightarrow> (string \<times> string) list" where
  "resolveAddonRelativeSources addon sources =
     foldl (\<lambda>result filePath.
              case map_of sources filePath of
                None \<Rightarrow> result
              | Some text \<Rightarrow> objectAssign result (pathJoin (getName addon) filePath) text)
       [] (map fst sources)"

text \<open>\<open>_writeSources\<close>.\<close>

definition writeSources :: "provider \<Rightarrow> (string \<times> string) list \<Rightarrow> state \<Rightarrow> result" where
  "writeSources P sources s =
     forEach (\<lambda>src s'. case map_of sources src of
                          None \<Rightarrow> Inr s'
                        | Some text \<Rightarrow> writeFile P src text s')
       (map fst sources) s"

definition generateExtensionsCode :: "provider \<Rightarrow> state \<Rightarrow> result" where
  "generateExtensionsCode P s =
     forEach (\<lambda>extension.
                writeSources P
                  (resolveAddonRelativeSources extension (generateCode extension (buildConfig P))))
       (getExtensions P) s"

text \<open>
  \<open>_setupExtensions\<close> registers one listener of \<open>EVENT_GENERATED\<close> on every extension:
  the list of these listeners, in the order of the extensions. The call of
  \<open>setCodeSource\<close> and the readiness promise of the constructor do not touch the state
  of the provider and are left out.
\<close>

definition setupExtensions :: "provider \<Rightarrow> ((string \<times> string) list \<Rightarrow> state \<Rightarrow> result) list" where
  "setupExtensions P =
     map (\<lambda>extension sources.
            writeSources P (resolveAddonRelativeSources extension sources))
       (getExtensions P)"

text \<open>
  The extension at position \<open>i\<close> emits \<open>EVENT_GENERATED\<close> with \<open>sources\<close>: its listener
  runs. Nothing listens to an extension the provider was not set up with.
\<close>

definition emitGenerated :: "provider \<Rightarrow> nat \<Rightarrow> (string \<times> string) list \<Rightarrow> state \<Rightarrow> result" where
  "emitGenerated P i sources s =
     (if i < length (setupExtensions P) then (setupExtensions P ! i) sources s else Inr s)"

subsection \<open>\<open>generateDefines\<close> and \<open>buildCode\<close>\<close>

definition generateDefines :: "provider \<Rightarrow> state \<Rightarrow> result" where
  "generateDefines P s = writeFile P ''define.js'' (content (configDefine (buildConfig P))) s"

definition buildCode :: "provider \<Rightarrow> state \<Rightarrow> result" where
  "buildCode P s =
     andThen (andThen (andThen (clean P s) (generateBaseApp P)) (generateExtensionsCode P))
       (generateDefines P)"


section \<open>Notions used in the statements\<close>

text \<open>A segment that names an entry: not empty, not \<open>.\<close> or \<open>..\<close> and without a slash.\<close>

definition plainSeg :: "string \<Rightarrow> bool" where
  "plainSeg n = (n \<noteq> [] \<and> n \<noteq> ''.'' \<and> n \<noteq> ''..'' \<and> CHR ''/'' \<notin> set n)"

text \<open>The stack a path is resolved on: empty for an absolute path.\<close>

definition baseOf :: "string \<Rightarrow> string \<Rightarrow> string list" where
  "baseOf wd p = (if isAbsolute p then [] else resolveSegs wd [])"

text \<open>The place in the file system where \<open>_writeFile(src, ...)\<close> writes.\<close>

definition target :: "provider \<Rightarrow> string \<Rightarrow> string list" where
  "target P src = resolveSegs (cwd P) (pathJoin (root P) src)"

text \<open>A sequence of calls of \<open>_writeFile\<close>, and the text the last of them leaves at a place.\<close>

definition writeAll :: "provider \<Rightarrow> (string \<times> string) list \<Rightarrow> state \<Rightarrow> result" where
  "writeAll P ws s = forEach (\<lambda>(src, text). writeFile P src text) ws s"

definition lastWrite :: "provider \<Rightarrow> (string \<times> string) list \<Rightarrow> string list \<Rightarrow> string option" where
  "lastWrite P ws q = map_of (rev (map (\<lambda>(src, text). (target P src, text)) ws)) q"

text \<open>The files \<open>generateBaseApp\<close>, the extensions and \<open>generateDefines\<close> write, in order.\<close>

definition baseAppSources :: "provider \<Rightarrow> (string \<times> string) list" where
  "baseAppSources P =
     [(''base-application.js'',
         render P ''base-application.js.tpl'' (Platforms (platformNames P))),
      (''app.js'', render P ''app.js.tpl'' (Path (stripJs (mainPath P)))),
      (''package-info.js'', render P ''package-info.js.tpl'' (Config (packageJson P)))]"

definition extensionSources :: "provider \<Rightarrow> (string \<times> string) list" where
  "extensionSources P =
     concat (map (\<lambda>extension.
                    resolveAddonRelativeSources extension (generateCode extension (buildConfig P)))
               (getExtensions P))"

definition buildSources :: "provider \<Rightarrow> (string \<times> string) list" where
  "buildSources P =
     baseAppSources P @ extensionSources P
       @ [(''define.js'', content (configDefine (buildConfig P)))]"

text \<open>The position of the first occurrence of \<open>x\<close> in \<open>xs\<close>.\<close>

definition firstIndex :: "'a list \<Rightarrow> 'a \<Rightarrow> nat" where
  "firstIndex xs x = length (takeWhile (\<lambda>y. y \<noteq> x) xs)"

text \<open>
  The resolution of a path by the kernel, component by component, in a tree of
  regular files and directories: a component is looked up in a directory that is
  there, so that \<open>..\<close> after a missing directory fails, where \<open>path.resolve\<close> cancels
  the two; \<open>..\<close> at the top stays at the top. The result is the place the path names,
  whether something is there or not. A relative path starts from the working
  directory of the process.
\<close>

fun walk :: "node \<Rightarrow> string list \<Rightarrow> string list \<Rightarrow> string list option" where
  "walk t cur [] = Some cur"
| "walk t cur (c # cs) =
     (if c = [] then walk t cur cs
      else case lookup t cur of
        Some (Dir es) \<Rightarrow>
          walk t (if c = ''.'' then cur else if c = ''..'' then butlast cur else cur @ [c]) cs
      | _ \<Rightarrow> None)"

definition kernelSegs :: "string \<Rightarrow> node \<Rightarrow> string \<Rightarrow> string list option" where
  "kernelSegs wd t p =
     walk t [] (splitOn CHR ''/'' (if isAbsolute p then p else wd @ ''/'' @ p))"

section \<open>A concrete provider\<close>

text \<open>
  A project \<open>app\<close> with sources in \<open>/p/src\<close>, generated code in \<open>/out\<close>, four platforms
  and one extension \<open>foo\<close>; the templates print the value they are given.
\<close>

definition exampleConfig :: buildConfig where
  "exampleConfig =
     \<lparr>generatedCode = ''/out'', projectName = ''app'', projectSrc = ''/p/src'',
      projectEntry = ''/p/src/main.js'',
      configDefine =
        [(''FOO'', JNumber 1), (''BAR'', JString ''x''),
         (''BAZ'', JArray [JNumber 1, JString ''a'', JNull])]\<rparr>"

definition exampleExtension :: extension where
  "exampleExtension = \<lparr>getName = ''foo'', generateCode = (\<lambda>c. [(''bar.js'', ''content'')])\<rparr>"

definition exampleRender :: "string \<Rightarrow> templateContext \<Rightarrow> string" where
  "exampleRender tpl c =
     (case c of
        Platforms ns \<Rightarrow> joinWith '','' ns
      | Path p \<Rightarrow> p
      | Config v \<Rightarrow> jsonStringify v)"

definition exampleProvider :: provider where
  "exampleProvider =
     \<lparr>cwd = ''/w'', resolveAbsolutePath = (\<lambda>p. p), render = exampleRender,
      getPlatforms = [''tv'', ''web'', ''pc'', ''tizen''], getExtensions = [exampleExtension],
      buildConfig = exampleConfig, packageJson = JObject [(''name'', JString ''app'')]\<rparr>"

text \<open>An output root with a hidden directory, a file and a directory.\<close>

definition exampleEntries :: "(string \<times> node) list" where
  "exampleEntries =
     [(''.git'', Dir [(''HEAD'', File ''ref'')]), (''old.js'', File ''old''),
      (''lib'', Dir [(''a.js'', File ''a'')])]"

definition exampleState :: state where
  "exampleState = \<lparr>fs = Dir [(''out'', Dir exampleEntries)], files = [], emitted = []\<rparr>"

text \<open>
  Modelled from the spec: the constructor of the base class \<open>SourceProviderBase\<close>, which
  is not among the sources, sets the registry up; a provider starts with no written
  file and no event. Here the output root does not exist yet.
\<close>

definition initialState :: state where
  "initialState = \<lparr>fs = Dir [], files = [], emitted = []\<rparr>"


text \<open>The state after \<open>buildCode\<close> in the example.\<close>

definition exampleFiles :: "string list" where
  "exampleFiles =
     [''/out/base-application.js'', ''/out/app.js'', ''/out/package-info.js'',
      ''/out/foo/bar.js'', ''/out/define.js'']"

definition exampleEvents :: "event list" where
  "exampleEvents = concat (map (\<lambda>f. [EventChanged f, EventAny f]) exampleFiles)"

definition exampleBuilt :: state where
  "exampleBuilt =
     \<lparr>fs = Dir [(''out'',
         Dir [(''.git'', Dir [(''HEAD'', File ''ref'')]),
              (''base-application.js'', File ''tv,web,tizen,pc''),
              (''app.js'', File ''app/main''),
              (''package-info.js'', File (jsonStringify (packageJson exampleProvider))),
              (''foo'', Dir [(''bar.js'', File ''content'')]),
              (''define.js'', File (content (configDefine exampleConfig)))])],
      files = exampleFiles, emitted = exampleEvents\<rparr>"

text \<open>The state after \<open>generateBaseApp\<close> alone in the example.\<close>

definition exampleBaseApp :: state where
  "exampleBaseApp =
     \<lparr>fs = Dir [(''out'',
         Dir (exampleEntries @
              [(''base-application.js'', File ''tv,web,tizen,pc''),
               (''app.js'', File ''app/main''),
               (''package-info.js'', File (jsonStringify (packageJson exampleProvider)))]))],
      files = take 3 exampleFiles, emitted = take 6 exampleEvents\<rparr>"

text \<open>The states after \<open>generateDefines\<close> alone, from the example and from an empty tree.\<close>

definition exampleDefines :: state where
  "exampleDefines =
     \<lparr>fs = Dir [(''out'', Dir (exampleEntries @
              [(''define.js'', File (content (configDefine exampleConfig)))]))],
      files = [''/out/define.js''],
      emitted = [EventChanged ''/out/define.js'', EventAny ''/out/define.js'']\<rparr>"

definition exampleDefinesInitial :: state where
  "exampleDefinesInitial =
     \<lparr>fs = Dir [(''out'', Dir [(''define.js'', File (content (configDefine exampleConfig)))])],
      files = [''/out/define.js''],
      emitted = [EventChanged ''/out/define.js'', EventAny ''/out/define.js'']\<rparr>"





text \<open>
  What a path names in a tree, and the order of trees in which the larger tree has
  every entry of the smaller one, of the same kind.
\<close>

datatype kind = Absent | IsFile | IsDir

definition kind :: "node \<Rightarrow> string list \<Rightarrow> kind" where
  "kind t q = (case lookup t q of None \<Rightarrow> Absent | Some (File c) \<Rightarrow> IsFile | Some (Dir es) \<Rightarrow> IsDir)"

definition below :: "node \<Rightarrow> node \<Rightarrow> bool" where
  "below t u = (\<forall>q. kind t q \<noteq> Absent \<longrightarrow> kind u q = kind t q)"


text \<open>
  A tree as a file system has it: the entries of a directory have distinct names, and a
  name is a plain segment.
\<close>

fun properTree :: "node \<Rightarrow> bool" where
  "properTree (File c) = True"
| "properTree (Dir es) = (distinct (map fst es) \<and> (\<forall>(k, ch) \<in> set es. plainSeg k \<and> properTree ch))"

section \<open>Reading files after a change of the tree\<close>

lemma readFile_Nil: "readFile n [] = (case n of File c \<Rightarrow> Some c | Dir es \<Rightarrow> None)"
  by (simp add: readFile_def split: node.splits)

lemma readFile_Cons:
  "readFile n (q # qs) =
     (case n of File c \<Rightarrow> None
      | Dir es \<Rightarrow> (case map_of es q of None \<Rightarrow> None | Some ch \<Rightarrow> readFile ch qs))"
  by (simp add: readFile_def split: node.splits option.splits)

lemma mkdirp_readFile: "mkdirp t p = Inr t' \<Longrightarrow> readFile t' q = readFile t q"
proof (induction p arbitrary: t t' q)
  case Nil
  then show ?case by (simp split: node.splits)
next
  case (Cons s ss)
  from Cons.prems obtain es where t: "t = Dir es"
    by (cases t) auto
  let ?ch = "case map_of es s of None \<Rightarrow> Dir [] | Some ch \<Rightarrow> ch"
  from Cons.prems t obtain ch' where m: "mkdirp ?ch ss = Inr ch'" and t': "t' = Dir (AList.update s ch' es)"
    by (auto split: sum.splits)
  have ih: "\<And>r. readFile ch' r = readFile ?ch r"
    using Cons.IH [OF m] by simp
  show ?case
  proof (cases q)
    case Nil
    then show ?thesis by (simp add: t t' readFile_Nil)
  next
    case (Cons q1 qs)
    show ?thesis
    proof (cases "q1 = s")
      case True
      then show ?thesis
        using ih [of qs] Cons
        by (cases qs) (auto simp: t t' readFile_Cons readFile_Nil AList.update_conv' split: option.splits)
    next
      case False
      then show ?thesis
        by (simp add: Cons t t' readFile_Cons AList.update_conv')
    qed
  qed
qed

lemma writeAt_readFile_same: "writeAt t p c = Inr t' \<Longrightarrow> readFile t' p = Some c"
proof (induction t p c arbitrary: t' rule: writeAt.induct)
  case (1 n content)
  then show ?case by simp
next
  case (2 n s content)
  then show ?case
    by (auto simp: readFile_Cons readFile_Nil AList.update_conv' split: node.splits option.splits)
next
  case (3 n s v va content)
  from "3.prems" obtain es ch ch' where n: "n = Dir es" and ch: "map_of es s = Some ch"
    and w: "writeAt ch (v # va) content = Inr ch'" and t': "t' = Dir (AList.update s ch' es)"
    by (auto split: node.splits option.splits sum.splits)
  from "3.IH" [OF n ch w] show ?case
    by (simp add: n t' readFile_Cons [of _ s] AList.update_conv')
qed

lemma writeAt_readFile_other:
  "writeAt t p c = Inr t' \<Longrightarrow> q \<noteq> p \<Longrightarrow> readFile t' q = readFile t q"
proof (induction t p c arbitrary: t' q rule: writeAt.induct)
  case (1 n content)
  then show ?case by simp
next
  case (2 n s content)
  then show ?case
    by (cases q; cases "tl q")
       (auto simp: readFile_Cons readFile_Nil AList.update_conv' split: node.splits option.splits if_splits)
next
  case (3 n s v va content)
  from "3.prems" obtain es ch ch' where n: "n = Dir es" and ch: "map_of es s = Some ch"
    and w: "writeAt ch (v # va) content = Inr ch'" and t': "t' = Dir (AList.update s ch' es)"
    by (auto split: node.splits option.splits sum.splits)
  show ?case
  proof (cases q)
    case Nil
    then show ?thesis by (simp add: n t' readFile_Nil)
  next
    case (Cons q1 qs)
    show ?thesis
    proof (cases "q1 = s")
      case True
      with Cons "3.prems"(2) have "qs \<noteq> v # va" by simp
      from "3.IH" [OF n ch w this] show ?thesis
        by (simp add: Cons True n t' ch readFile_Cons AList.update_conv')
    next
      case False
      then show ?thesis by (simp add: Cons n t' readFile_Cons AList.update_conv')
    qed
  qed
qed

section \<open>Path algebra\<close>

lemma splitOn_nonempty: "splitOn c xs \<noteq> []"
  by (induction xs) (auto split: list.splits)

lemma splitOn_append: "splitOn c (a @ c # b) = splitOn c a @ splitOn c b"
proof (induction a)
  case Nil
  then show ?case by simp
next
  case (Cons x a)
  then show ?case
    using splitOn_nonempty [of c a] by (auto split: list.splits)
qed

lemma splitOn_snoc: "splitOn c (a @ [c]) = splitOn c a @ [[]]"
  using splitOn_append [of c a "[]"] by simp

lemma splitOn_no_sep: "seg \<in> set (splitOn c xs) \<Longrightarrow> c \<notin> set seg"
  by (induction xs arbitrary: seg) (auto split: list.splits if_splits)

lemma splitOn_plain: "c \<notin> set seg \<Longrightarrow> splitOn c seg = [seg]"
  by (induction seg) auto

lemma splitOn_joinWith:
  "N \<noteq> [] \<Longrightarrow> \<forall>seg \<in> set N. c \<notin> set seg \<Longrightarrow> splitOn c (joinWith [c] N) = N"
proof (induction N)
  case Nil
  then show ?case by simp
next
  case (Cons x N)
  show ?case
  proof (cases N)
    case Nil
    then show ?thesis using Cons.prems by (simp add: splitOn_plain)
  next
    case (Cons y ys)
    then have "splitOn c (joinWith [c] N) = N"
      using Cons.IH Cons.prems by simp
    then show ?thesis
      using splitOn_append [of c x "joinWith [c] N"] Cons.prems Cons
      by (simp add: splitOn_plain)
  qed
qed

lemma normStep_skip [simp]: "normStep al res [] = res" "normStep al res ''.'' = res"
  by (simp_all add: normStep_def)

lemma normStep_push: "seg \<noteq> [] \<Longrightarrow> seg \<noteq> ''.'' \<Longrightarrow> seg \<noteq> ''..'' \<Longrightarrow> normStep al res seg = res @ [seg]"
  by (simp add: normStep_def)

lemma normStep_pop: "x \<noteq> ''..'' \<Longrightarrow> normStep al (res @ [x]) ''..'' = res"
  by (simp add: normStep_def)

lemma normStep_elems:
  "\<forall>x \<in> set res. x \<noteq> [] \<and> x \<noteq> ''.'' \<Longrightarrow> \<forall>x \<in> set (normStep al res seg). x \<noteq> [] \<and> x \<noteq> ''.''"
  by (auto simp: normStep_def dest: in_set_butlastD)

lemma foldl_normStep_elems:
  "\<forall>x \<in> set res. x \<noteq> [] \<and> x \<noteq> ''.'' \<Longrightarrow> \<forall>x \<in> set (foldl (normStep al) res segs). x \<noteq> [] \<and> x \<noteq> ''.''"
proof (induction segs arbitrary: res)
  case Nil
  then show ?case by simp
next
  case (Cons a segs)
  show ?case using Cons.IH [OF normStep_elems [OF Cons.prems]] by simp
qed

lemma normalizeString_elems: "x \<in> set (normalizeString segs al) \<Longrightarrow> x \<noteq> [] \<and> x \<noteq> ''.''"
  using foldl_normStep_elems [of "[]" al segs] by (simp add: normalizeString_def)

lemma normStep_no_dotdot:
  "''..'' \<notin> set res \<Longrightarrow> ''..'' \<notin> set (normStep False res seg)"
  by (auto simp: normStep_def dest: in_set_butlastD)

lemma foldl_normStep_no_dotdot:
  "''..'' \<notin> set res \<Longrightarrow> ''..'' \<notin> set (foldl (normStep False) res segs)"
  by (induction segs arbitrary: res) (auto simp: normStep_no_dotdot)

lemma normStep_subset: "set (normStep al res seg) \<subseteq> insert seg (set res)"
  by (auto simp: normStep_def dest: in_set_butlastD)

lemma foldl_normStep_subset: "set (foldl (normStep al) res segs) \<subseteq> set res \<union> set segs"
proof (induction segs arbitrary: res)
  case Nil
  then show ?case by simp
next
  case (Cons a segs)
  show ?case using Cons.IH [of "normStep al res a"] normStep_subset [of al res a] by auto
qed

text \<open>Segments that are all plain are pushed one after the other.\<close>

lemma foldl_normStep_plain:
  "\<forall>x \<in> set N. x \<noteq> [] \<and> x \<noteq> ''.'' \<and> x \<noteq> ''..'' \<Longrightarrow> foldl (normStep al) res N = res @ N"
  by (induction N arbitrary: res) (auto simp: normStep_push)

text \<open>Normalising a suffix first does not change what the whole path resolves to.\<close>

lemma foldl_normStep_normalized:
  "al \<or> base = [] \<Longrightarrow>
   foldl (normStep False) base (normalizeString Q al) = foldl (normStep False) base Q"
proof (induction Q rule: rev_induct)
  case Nil
  then show ?case by (simp add: normalizeString_def)
next
  case (snoc s Q)
  let ?N = "normalizeString Q al"
  let ?F = "foldl (normStep False) base"
  have N: "normalizeString (Q @ [s]) al = normStep al ?N s"
    by (simp add: normalizeString_def)
  have R: "?F (Q @ [s]) = normStep False (?F ?N) s"
    using snoc.IH [OF snoc.prems] by simp
  have el: "\<forall>x \<in> set ?N. x \<noteq> [] \<and> x \<noteq> ''.''"
    using normalizeString_elems by blast
  consider (skip) "s = [] \<or> s = ''.''"
    | (push) "s \<noteq> []" "s \<noteq> ''.''" "s \<noteq> ''..''"
    | (pop) "s = ''..''" "?N \<noteq> []" "last ?N \<noteq> ''..''"
    | (up) "s = ''..''" "?N = [] \<or> last ?N = ''..''"
    by blast
  then show ?case
  proof cases
    case skip
    then have "normStep al ?N s = ?N" "normStep False (?F ?N) s = ?F ?N"
      by auto
    then show ?thesis unfolding N R by simp
  next
    case push
    then have "normStep al ?N s = ?N @ [s]" "normStep False (?F ?N) s = ?F ?N @ [s]"
      by (simp_all add: normStep_push)
    then show ?thesis unfolding N R by (simp add: normStep_push push)
  next
    case pop
    then obtain X x where X: "?N = X @ [x]" and x: "x \<noteq> ''..''"
      by (metis append_butlast_last_id)
    from el X have xp: "x \<noteq> []" "x \<noteq> ''.''" by auto
    have a: "normStep al ?N s = X"
      unfolding X pop(1) using x by (rule normStep_pop)
    have "?F ?N = ?F X @ [x]"
      unfolding X using x xp by (simp add: normStep_push)
    then have b: "normStep False (?F ?N) s = ?F X"
      unfolding pop(1) using x by (simp add: normStep_pop)
    show ?thesis unfolding N R a b ..
  next
    case up
    show ?thesis
    proof (cases al)
      case True
      then have a: "normStep al ?N s = ?N @ [s]"
        using up by (auto simp: normStep_def)
      show ?thesis unfolding N R a by simp
    next
      case False
      then have "''..'' \<notin> set ?N"
        using foldl_normStep_no_dotdot [of "[]" Q] by (simp add: normalizeString_def)
      with up have e: "?N = []"
        by (metis last_in_set)
      from False snoc.prems have base: "base = []" by simp
      have "normalizeString (Q @ [s]) al = []"
        using N e False up(1) by (simp add: normStep_def)
      moreover have "?F (Q @ [s]) = []"
        using R e base up(1) by (simp add: normStep_def)
      ultimately show ?thesis using base by simp
    qed
  qed
qed

lemma resolveSegs_abs:
  "isAbsolute p \<Longrightarrow> resolveSegs wd p = foldl (normStep False) [] (splitOn CHR ''/'' p)"
  by (simp add: resolveSegs_def normalizeString_def)

lemma resolveSegs_rel:
  "\<not> isAbsolute p \<Longrightarrow>
   resolveSegs wd p = foldl (normStep False) (resolveSegs wd []) (splitOn CHR ''/'' p)"
proof -
  assume r: "\<not> isAbsolute p"
  have "\<not> isAbsolute []" by (simp add: isAbsolute_def)
  then show ?thesis
    using r splitOn_append [of "CHR ''/''" wd p] splitOn_snoc [of "CHR ''/''" wd]
    by (simp add: resolveSegs_def normalizeString_def)
qed

lemma resolveSegs_fold:
  "resolveSegs wd p = foldl (normStep False) (baseOf wd p) (splitOn CHR ''/'' p)"
  by (simp add: baseOf_def resolveSegs_abs resolveSegs_rel)

lemma joinWith_Nil_iff: "\<forall>x \<in> set N. x \<noteq> [] \<Longrightarrow> joinWith sep N = [] \<longleftrightarrow> N = []"
  by (induction sep N rule: joinWith.induct) auto

lemma hd_joinWith: "N \<noteq> [] \<Longrightarrow> hd N \<noteq> [] \<Longrightarrow> hd (joinWith sep N) = hd (hd N)"
  by (induction sep N rule: joinWith.induct) auto

lemma resolveSegs_pathNormalize:
  assumes "p \<noteq> []"
  shows "resolveSegs wd (pathNormalize p) = resolveSegs wd p"
proof -
  let ?al = "\<not> isAbsolute p"
  let ?N = "normalizeString (splitOn CHR ''/'' p) ?al"
  let ?s = "joinWith ''/'' ?N"
  let ?post = "if trailingSeparator p then ''/'' else []"
  have ne: "\<forall>x \<in> set ?N. x \<noteq> []"
    using normalizeString_elems by blast
  have nosep: "\<forall>x \<in> set ?N. CHR ''/'' \<notin> set x"
    using foldl_normStep_subset [of ?al "[]" "splitOn CHR ''/'' p"] splitOn_no_sep
    by (fastforce simp: normalizeString_def)
  have conf: "foldl (normStep False) (baseOf wd p) ?N = resolveSegs wd p"
  proof -
    have "?al \<or> baseOf wd p = []" by (simp add: baseOf_def)
    from foldl_normStep_normalized [OF this] show ?thesis
      unfolding resolveSegs_fold [of wd p] .
  qed
  show ?thesis
  proof (cases "?N = []")
    case True
    then have s: "?s = []" by simp
    have r: "resolveSegs wd p = baseOf wd p"
      using conf True by simp
    have "pathNormalize p = (if isAbsolute p then ''/'' else if trailingSeparator p then ''./'' else ''.'')"
      using assms s by (simp add: pathNormalize_def)
    moreover have "resolveSegs wd ''/'' = []"
      by (simp add: resolveSegs_abs isAbsolute_def)
    moreover have "resolveSegs wd ''./'' = resolveSegs wd []" "resolveSegs wd ''.'' = resolveSegs wd []"
      using resolveSegs_rel [of "''./''" wd] resolveSegs_rel [of "''.''" wd]
      by (simp_all add: isAbsolute_def)
    ultimately show ?thesis
      unfolding r by (simp add: baseOf_def)
  next
    case False
    then have sne: "?s \<noteq> []"
      using joinWith_Nil_iff [OF ne] by simp
    have hd: "hd ?s \<noteq> CHR ''/''"
      using hd_joinWith [of ?N "''/''"] False ne nosep
      by (metis hd_in_set list.set_sel(1))
    have split_s: "splitOn CHR ''/'' ?s = ?N"
      using splitOn_joinWith [OF False nosep] by simp
    have split_sp: "foldl (normStep False) b (splitOn CHR ''/'' (?s @ ?post)) = foldl (normStep False) b ?N" for b
      using split_s splitOn_snoc [of "CHR ''/''" ?s] by simp
    have pn: "pathNormalize p = (if isAbsolute p then ''/'' else []) @ ?s @ ?post"
      using assms sne by (simp add: pathNormalize_def Let_def)
    show ?thesis
    proof (cases "isAbsolute p")
      case True
      have "splitOn CHR ''/'' (''/'' @ ?s @ ?post) = [] # splitOn CHR ''/'' (?s @ ?post)"
        by simp
      moreover have "isAbsolute (''/'' @ ?s @ ?post)"
        by (simp add: isAbsolute_def)
      ultimately have "resolveSegs wd (''/'' @ ?s @ ?post) = foldl (normStep False) [] ?N"
        using split_sp [of "[]"] resolveSegs_abs [of "''/'' @ ?s @ ?post" wd]
        by simp
      then show ?thesis using conf True pn by (simp add: baseOf_def)
    next
      case False
      have "\<not> isAbsolute (?s @ ?post)"
        using sne hd by (simp add: isAbsolute_def)
      then have "resolveSegs wd (?s @ ?post) = foldl (normStep False) (resolveSegs wd []) ?N"
        using split_sp resolveSegs_rel [of "?s @ ?post" wd] by simp
      then show ?thesis using conf False pn by (simp add: baseOf_def)
    qed
  qed
qed

lemma resolveSegs_pathJoin:
  assumes "a \<noteq> []"
  shows "resolveSegs wd (pathJoin a b) = foldl (normStep False) (resolveSegs wd a) (splitOn CHR ''/'' b)"
proof (cases "b = []")
  case True
  then show ?thesis
    using assms resolveSegs_pathNormalize [of a wd] by (simp add: pathJoin_def)
next
  case False
  have abs: "isAbsolute (a @ ''/'' @ b) = isAbsolute a"
    using assms by (simp add: isAbsolute_def)
  have "baseOf wd (a @ ''/'' @ b) = baseOf wd a"
    using abs by (simp add: baseOf_def)
  then have "resolveSegs wd (a @ ''/'' @ b)
      = foldl (normStep False) (resolveSegs wd a) (splitOn CHR ''/'' b)"
    using splitOn_append [of "CHR ''/''" a b]
    unfolding resolveSegs_fold [of wd a] resolveSegs_fold [of wd "a @ ''/'' @ b"]
    by simp
  then show ?thesis
    using assms False resolveSegs_pathNormalize [of "a @ ''/'' @ b" wd]
    by (simp add: pathJoin_def)
qed

lemma resolveSegs_pathJoin_plain:
  assumes "a \<noteq> []" "plainSeg n"
  shows "resolveSegs wd (pathJoin a n) = resolveSegs wd a @ [n]"
  using assms resolveSegs_pathJoin [OF assms(1), of wd n]
  by (simp add: plainSeg_def splitOn_plain normStep_push)


section \<open>Type inference and the defines module\<close>

lemma setAdd_props: "distinct s \<Longrightarrow> distinct (setAdd s x) \<and> set (setAdd s x) = insert x (set s)"
  by (auto simp: setAdd_def)

lemma foldl_setAdd_props:
  "distinct s \<Longrightarrow> distinct (foldl setAdd s xs) \<and> set (foldl setAdd s xs) = set s \<union> set xs"
proof (induction xs arbitrary: s)
  case Nil
  then show ?case by simp
next
  case (Cons x xs)
  from setAdd_props [OF Cons.prems, of x] Cons.IH [of "setAdd s x"] show ?case by auto
qed

lemma arrayFromSet_distinct: "distinct (arrayFromSet xs)"
  using foldl_setAdd_props [of "[]" xs] by (simp add: arrayFromSet_def)

lemma arrayFromSet_set: "set (arrayFromSet xs) = set xs"
  using foldl_setAdd_props [of "[]" xs] by (simp add: arrayFromSet_def)

text \<open>
  Claim C5. The type tag inferred for a value: \<open>Function\<close> for a function, \<open>null\<close> for
  null, \<open>Array<*>\<close> for the empty array, for any other array \<open>Array<T>\<close> where \<open>T\<close> joins
  with \<open>|\<close> the tags of the members, each once; \<open>Object\<close> for an object and the
  \<open>typeof\<close> tag for the other primitives.
\<close>

theorem getGCCType_tags:
  "getGCCType (JFunction f) = ''Function''
   \<and> getGCCType JNull = ''null''
   \<and> getGCCType (JArray []) = ''Array<*>''
   \<and> (a \<noteq> [] \<longrightarrow>
        (\<exists>ts. getGCCType (JArray a) = ''Array<'' @ joinWith ''|'' ts @ ''>''
              \<and> distinct ts \<and> set ts = getGCCType ` set a))
   \<and> getGCCType (JObject ps) = ''Object''
   \<and> getGCCType JUndefined = ''undefined''
   \<and> getGCCType (JBoolean b) = ''boolean''
   \<and> getGCCType (JNumber n) = ''number''
   \<and> getGCCType (JString s) = ''string''"
proof -
  have "a \<noteq> [] \<longrightarrow>
        (\<exists>ts. getGCCType (JArray a) = ''Array<'' @ joinWith ''|'' ts @ ''>''
              \<and> distinct ts \<and> set ts = getGCCType ` set a)"
  proof
    assume "a \<noteq> []"
    then have "getGCCType (JArray a)
        = ''Array<'' @ joinWith ''|'' (arrayFromSet (map getGCCType a)) @ ''>''"
      by simp
    then show "\<exists>ts. getGCCType (JArray a) = ''Array<'' @ joinWith ''|'' ts @ ''>''
              \<and> distinct ts \<and> set ts = getGCCType ` set a"
      using arrayFromSet_distinct [of "map getGCCType a"] arrayFromSet_set [of "map getGCCType a"]
      by (intro exI [of _ "arrayFromSet (map getGCCType a)"]) simp
  qed
  then show ?thesis by simp
qed

text \<open>The array \<open>[1, "a", null, 2]\<close> has the tag \<open>Array<number|string|null>\<close>.\<close>

theorem getGCCType_tags_witness:
  "[JNumber 1, JString ''a'', JNull, JNumber 2] \<noteq> []
   \<and> (\<exists>ts. getGCCType (JArray [JNumber 1, JString ''a'', JNull, JNumber 2])
              = ''Array<'' @ joinWith ''|'' ts @ ''>''
          \<and> distinct ts \<and> set ts = {''number'', ''string'', ''null''})
   \<and> getGCCType (JArray [JNumber 1, JString ''a'', JNull, JNumber 2])
        = ''Array<number|string|null>''"
proof -
  have "getGCCType (JArray [JNumber 1, JString ''a'', JNull, JNumber 2])
        = ''Array<number|string|null>''"
    by (simp add: arrayFromSet_def setAdd_def)
  then show ?thesis
    using getGCCType_tags [of _ "[JNumber 1, JString ''a'', JNull, JNumber 2]"]
    by auto
qed

text \<open>
  Claim C9. When nothing exists at the output root, \<open>clean\<close> returns without throwing
  and leaves the file system, and the whole state, as it was.
\<close>

theorem clean_missing_root:
  "lookup (fs s) (resolveSegs (cwd P) (root P)) = None \<Longrightarrow> clean P s = Inr s"
  by (simp add: clean_def pathExistsSync_def existsSync_def statSync_def)

text \<open>The provider of the example before anything was written: \<open>/out\<close> does not exist.\<close>

theorem clean_missing_root_witness:
  "lookup (fs initialState) (resolveSegs (cwd exampleProvider) (root exampleProvider)) = None
   \<and> clean exampleProvider initialState = Inr initialState"
proof -
  have "lookup (fs initialState) (resolveSegs (cwd exampleProvider) (root exampleProvider)) = None"
    by (simp add: initialState_def exampleProvider_def root_def exampleConfig_def
        resolveSegs_def isAbsolute_def normalizeString_def normStep_def)
  then show ?thesis using clean_missing_root by blast
qed

lemma digits_small: "n < 10 \<Longrightarrow> digits n = [digitChar n]"
  by (subst digits.simps) simp

lemma digitChar_1: "digitChar (Suc 0) = CHR ''1''"
  by code_simp

text \<open>
  Claim C6. For the defines \<open>{FOO: 1, BAR: "x", BAZ: [1, "a", null]}\<close> the module tags
  \<open>FOO\<close> as a number with the literal \<open>1\<close>, \<open>BAR\<close> as a string with the quoted literal
  \<open>"x"\<close> and \<open>BAZ\<close> as \<open>Array<number|string|null>\<close> with the literal \<open>[1,"a",null]\<close>; an
  empty array has the element type \<open>*\<close> and the literal \<open>[]\<close>.
\<close>

theorem defines_example:
  "content [(''FOO'', JNumber 1), (''BAR'', JString ''x''),
            (''BAZ'', JArray [JNumber 1, JString ''a'', JNull])]
     = ''/**'' @ LF @ '' * @const {number}'' @ LF @ '' */'' @ LF
        @ ''export const FOO = 1;'' @ LF @ LF
        @ ''/**'' @ LF @ '' * @const {string}'' @ LF @ '' */'' @ LF
        @ ''export const BAR = '' @ DQ @ ''x'' @ DQ @ '';'' @ LF @ LF
        @ ''/**'' @ LF @ '' * @const {Array<number|string|null>}'' @ LF @ '' */'' @ LF
        @ ''export const BAZ = [1,'' @ DQ @ ''a'' @ DQ @ '',null];''
   \<and> getArrayContentsType [] = ''*''
   \<and> getGCCType (JArray []) = ''Array<*>''
   \<and> printValue (getGCCType (JArray [])) (JArray []) = ''[]''
   \<and> content [(''EMPTY'', JArray [])]
     = ''/**'' @ LF @ '' * @const {Array<*>}'' @ LF @ '' */'' @ LF @ ''export const EMPTY = [];''"
  by (simp add: content_def printJsdoc_def printTypeTag_def LF_def DQ_def arrayFromSet_def
      setAdd_def toString_def numberToString_def digits_small digitChar_1 jsonStringify_def jsonQuote_def
      jsonChar_def)

section \<open>Writing files\<close>

lemma writeFile_Inr:
  assumes "writeFile P src text s = Inr s'"
  shows "readFile (fs s') (target P src) = Some text"
    and "\<And>q. q \<noteq> target P src \<Longrightarrow> readFile (fs s') q = readFile (fs s) q"
    and "files s' = (if pathJoin (root P) src \<in> set (files s) then files s
                     else files s @ [pathJoin (root P) src])"
    and "emitted s' = emitted s
           @ [EventChanged (pathJoin (root P) src), EventAny (pathJoin (root P) src)]"
proof -
  let ?f = "pathJoin (root P) src"
  let ?d = "pathDirname ?f"
  obtain t1 where t1: "(if \<not> existsSync (cwd P) (fs s) ?d
                        then ensureDirSync (cwd P) (fs s) ?d else Inr (fs s)) = Inr t1"
    and w: "writeFileSync (cwd P) t1 ?f text = Inr (fs s')"
    and f: "files s' = (if ?f \<in> set (files s) then files s else files s @ [?f])"
    and e: "emitted s' = emitted s @ [EventChanged ?f, EventAny ?f]"
    using assms
    by (auto simp: writeFile_def Let_def andThen_def fsCall_def split: if_splits sum.splits)
  have r1: "readFile t1 q = readFile (fs s) q" for q
    using t1 mkdirp_readFile [of "fs s" "resolveSegs (cwd P) ?d" t1 q]
    by (auto simp: ensureDirSync_def split: if_splits)
  from w have w': "writeAt t1 (target P src) text = Inr (fs s')"
    by (auto simp: writeFileSync_def target_def split: if_splits)
  show "readFile (fs s') (target P src) = Some text"
    using writeAt_readFile_same [OF w'] .
  show "readFile (fs s') q = readFile (fs s) q" if "q \<noteq> target P src" for q
    using writeAt_readFile_other [OF w' that] r1 by simp
  show "files s' = (if ?f \<in> set (files s) then files s else files s @ [?f])" by (rule f)
  show "emitted s' = emitted s @ [EventChanged ?f, EventAny ?f]" by (rule e)
qed

lemma lastWrite_Cons:
  "lastWrite P ((src, text) # ws) q =
     (case lastWrite P ws q of
        Some c \<Rightarrow> Some c
      | None \<Rightarrow> (if q = target P src then Some text else None))"
  by (simp add: lastWrite_def map_add_def split: option.splits)

lemma writeAll_Cons:
  "writeAll P ((src, text) # ws) s = andThen (writeFile P src text s) (writeAll P ws)"
  by (simp add: writeAll_def andThen_def split: sum.splits)

lemma writeAll_append:
  "writeAll P (ws @ vs) s = andThen (writeAll P ws s) (writeAll P vs)"
  by (induction ws arbitrary: s) (auto simp: writeAll_def andThen_def split: sum.splits)

lemma writeAll_readFile:
  "writeAll P ws s = Inr s' \<Longrightarrow>
   readFile (fs s') q = (case lastWrite P ws q of Some c \<Rightarrow> Some c | None \<Rightarrow> readFile (fs s) q)"
proof (induction ws arbitrary: s)
  case Nil
  then show ?case by (simp add: writeAll_def lastWrite_def)
next
  case (Cons w ws)
  obtain src body where w: "w = (src, body)" by (cases w)
  from Cons.prems obtain s1 where s1: "writeFile P src body s = Inr s1"
    and rest: "writeAll P ws s1 = Inr s'"
    by (auto simp: w writeAll_Cons andThen_def split: sum.splits)
  have "readFile (fs s1) q = (if q = target P src then Some body else readFile (fs s) q)"
    using writeFile_Inr(1,2) [OF s1] by auto
  then show ?case
    using Cons.IH [OF rest] by (auto simp: w lastWrite_Cons split: option.splits)
qed

lemma lastWrite_Some:
  "(src, text) \<in> set ws \<Longrightarrow> lastWrite P ws (target P src) \<noteq> None"
proof -
  assume "(src, text) \<in> set ws"
  then have "(target P src, text) \<in> set (rev (map (\<lambda>(src, text). (target P src, text)) ws))"
    by force
  then show ?thesis
    unfolding lastWrite_def by (metis map_of_eq_None_iff image_eqI fst_conv)
qed

lemma insertIndexKey_set: "set (insertIndexKey k v ps) = insert (k, v) (set ps)"
  by (induction ps) (auto split: if_splits)

lemma insertIndexKey_distinct:
  "k \<notin> fst ` set ps \<Longrightarrow> distinct (map fst ps) \<Longrightarrow> distinct (map fst (insertIndexKey k v ps))"
  by (induction ps) (auto simp: insertIndexKey_set)

lemma insertIndexKey_map_of:
  "k \<notin> fst ` set ps \<Longrightarrow> map_of (insertIndexKey k v ps) = (map_of ps)(k \<mapsto> v)"
  by (induction ps) (auto simp: fun_eq_iff)

lemma objectAssign_keys: "fst ` set (objectAssign r k v) = insert k (fst ` set r)"
  by (auto simp: objectAssign_def insertIndexKey_set AList.dom_update)

lemma objectAssign_distinct:
  "distinct (map fst r) \<Longrightarrow> distinct (map fst (objectAssign r k v))"
  by (simp add: objectAssign_def insertIndexKey_distinct AList.distinct_update)

lemma objectAssign_map_of: "map_of (objectAssign r k v) = (map_of r)(k \<mapsto> v)"
  by (simp add: objectAssign_def insertIndexKey_map_of AList.update_conv')

text \<open>The step of the \<open>reduce\<close> in \<open>_resolveAddonRelativeSources\<close>.\<close>

lemma resolve_fold:
  assumes "set ks \<subseteq> fst ` set sources"
  shows "fst ` set (foldl (\<lambda>result filePath.
              case map_of sources filePath of
                None \<Rightarrow> result
              | Some text \<Rightarrow> objectAssign result (pathJoin n filePath) text) r ks)
         = fst ` set r \<union> pathJoin n ` set ks"
    and "distinct (map fst r) \<Longrightarrow> distinct (map fst (foldl (\<lambda>result filePath.
              case map_of sources filePath of
                None \<Rightarrow> result
              | Some text \<Rightarrow> objectAssign result (pathJoin n filePath) text) r ks))"
  using assms
proof (induction ks arbitrary: r)
  case Nil
  { case 1 show ?case by simp }
  { case 2 then show ?case by simp }
next
  case (Cons k ks)
  { case 1
    then obtain v where v: "map_of sources k = Some v"
      by (metis list.set_intros(1) map_of_eq_None_iff not_Some_eq subsetD)
    from 1 have sub: "set ks \<subseteq> fst ` set sources" by simp
    show ?case
      using Cons.IH(1) [OF sub, of "objectAssign r (pathJoin n k) v"]
      by (simp add: v objectAssign_keys) }
  { case 2
    then obtain v where v: "map_of sources k = Some v"
      by (metis list.set_intros(1) map_of_eq_None_iff not_Some_eq subsetD)
    from 2 have sub: "set ks \<subseteq> fst ` set sources" by simp
    show ?case
      using Cons.IH(2) [OF _ sub, of "objectAssign r (pathJoin n k) v"] 2(1)
      by (simp add: v objectAssign_distinct) }
qed


lemma resolveAddonRelativeSources_distinct:
  "distinct (map fst (resolveAddonRelativeSources addon sources))"
  using resolve_fold(2) [of "map fst sources" sources "[]" "getName addon"]
  by (simp add: resolveAddonRelativeSources_def)

lemma resolveAddonRelativeSources_value:
  assumes "inj_on (pathJoin (getName addon)) (fst ` set sources)" "p \<in> fst ` set sources"
  shows "map_of (resolveAddonRelativeSources addon sources) (pathJoin (getName addon) p)
         = map_of sources p"
proof -
  let ?f = "\<lambda>result filePath.
              case map_of sources filePath of
                None \<Rightarrow> result
              | Some text \<Rightarrow> objectAssign result (pathJoin (getName addon) filePath) text"
  have "set ks \<subseteq> fst ` set sources \<Longrightarrow> p \<in> set ks \<Longrightarrow>
        map_of (foldl ?f [] ks) (pathJoin (getName addon) p) = map_of sources p" for ks
  proof (induction ks rule: rev_induct)
    case Nil
    then show ?case by simp
  next
    case (snoc k ks)
    then obtain v where v: "map_of sources k = Some v"
      by (metis (no_types, lifting) Un_iff list.set_intros(1) map_of_eq_None_iff not_Some_eq
          set_append subsetD)
    show ?case
    proof (cases "p = k")
      case True
      then show ?thesis by (simp add: v objectAssign_map_of)
    next
      case False
      with snoc.prems have pk: "p \<in> set ks" by simp
      from snoc.prems have sub: "set ks \<subseteq> fst ` set sources" by simp
      have "pathJoin (getName addon) p \<noteq> pathJoin (getName addon) k"
        using assms(1) False snoc.prems(1) pk sub
        by (meson in_set_conv_decomp inj_onD subsetD)
      then show ?thesis
        using snoc.IH [OF sub pk] by (simp add: v objectAssign_map_of)
    qed
  qed
  from this [of "map fst sources"] assms(2) show ?thesis
    by (simp add: resolveAddonRelativeSources_def)
qed

lemma writeSources_writeAll:
  assumes "distinct (map fst W)"
  shows "writeSources P W s = writeAll P W s"
proof -
  have "\<forall>(k, v) \<in> set V. map_of W k = Some v \<Longrightarrow>
        forEach (\<lambda>src s'. case map_of W src of None \<Rightarrow> Inr s' | Some text \<Rightarrow> writeFile P src text s')
          (map fst V) s
        = forEach (\<lambda>(src, text). writeFile P src text) V s" for V
  proof (induction V arbitrary: s)
    case Nil
    then show ?case by simp
  next
    case (Cons a V)
    then show ?case by (cases a) (auto split: sum.splits)
  qed
  from this [of W] assms show ?thesis
    by (auto simp: writeSources_def writeAll_def)
qed

lemma generateBaseApp_writeAll: "generateBaseApp P s = writeAll P (baseAppSources P) s"
  by (simp add: generateBaseApp_def baseAppSources_def writeAll_def andThen_def split: sum.splits)

lemma generateExtensionsCode_writeAll:
  "generateExtensionsCode P s = writeAll P (extensionSources P) s"
proof -
  have "forEach (\<lambda>extension.
                writeSources P
                  (resolveAddonRelativeSources extension (generateCode extension (buildConfig P))))
          es s
        = writeAll P (concat (map (\<lambda>extension.
                    resolveAddonRelativeSources extension (generateCode extension (buildConfig P)))
               es)) s" for es
  proof (induction es arbitrary: s)
    case Nil
    then show ?case by (simp add: writeAll_def)
  next
    case (Cons e es)
    then show ?case
      by (simp add: writeAll_append andThen_def
          writeSources_writeAll [OF resolveAddonRelativeSources_distinct] split: sum.splits)
  qed
  then show ?thesis by (simp add: generateExtensionsCode_def extensionSources_def)
qed

lemma generateDefines_writeAll:
  "generateDefines P s = writeAll P [(''define.js'', content (configDefine (buildConfig P)))] s"
  by (simp add: generateDefines_def writeAll_def split: sum.splits)

lemma buildCode_writeAll: "buildCode P s = andThen (clean P s) (writeAll P (buildSources P))"
  by (simp add: buildCode_def buildSources_def generateBaseApp_writeAll
      generateExtensionsCode_writeAll generateDefines_writeAll writeAll_append andThen_def
      split: sum.splits)


section \<open>The base application\<close>

lemma plainSeg_not_abs: "plainSeg n \<Longrightarrow> \<not> isAbsolute n"
  by (cases n) (auto simp: plainSeg_def isAbsolute_def)

lemma resolveSegs_pathJoin_plain_any:
  assumes "plainSeg n"
  shows "resolveSegs wd (pathJoin a n) = resolveSegs wd a @ [n]"
proof (cases "a = []")
  case False
  then show ?thesis using assms by (rule resolveSegs_pathJoin_plain)
next
  case True
  from assms have n: "n \<noteq> []" by (simp add: plainSeg_def)
  have "resolveSegs wd (pathJoin a n) = resolveSegs wd n"
    using True n resolveSegs_pathNormalize [OF n] by (simp add: pathJoin_def)
  also have "\<dots> = foldl (normStep False) (resolveSegs wd []) (splitOn CHR ''/'' n)"
    using plainSeg_not_abs [OF assms] by (rule resolveSegs_rel)
  also have "\<dots> = resolveSegs wd [] @ [n]"
    using assms by (simp add: plainSeg_def splitOn_plain normStep_push)
  finally show ?thesis using True by simp
qed

lemma target_plain: "plainSeg n \<Longrightarrow> target P n = resolveSegs (cwd P) (root P) @ [n]"
  by (simp add: target_def resolveSegs_pathJoin_plain_any)

lemma plainSeg_base_files:
  "plainSeg ''base-application.js''" "plainSeg ''app.js''" "plainSeg ''package-info.js''"
  "plainSeg ''define.js''"
  by (simp_all add: plainSeg_def)

lemma baseApp_readFile:
  assumes "generateBaseApp P s = Inr s'"
  shows "readFile (fs s') (target P ''base-application.js'')
           = Some (render P ''base-application.js.tpl'' (Platforms (platformNames P)))"
    and "readFile (fs s') (target P ''app.js'')
           = Some (render P ''app.js.tpl'' (Path (stripJs (mainPath P))))"
    and "readFile (fs s') (target P ''package-info.js'')
           = Some (render P ''package-info.js.tpl'' (Config (packageJson P)))"
proof -
  from assms have w: "writeAll P (baseAppSources P) s = Inr s'"
    by (simp add: generateBaseApp_writeAll)
  show "readFile (fs s') (target P ''base-application.js'')
           = Some (render P ''base-application.js.tpl'' (Platforms (platformNames P)))"
    using writeAll_readFile [OF w, of "target P ''base-application.js''"]
    by (simp add: lastWrite_def baseAppSources_def target_plain plainSeg_base_files)
  show "readFile (fs s') (target P ''app.js'')
           = Some (render P ''app.js.tpl'' (Path (stripJs (mainPath P))))"
    using writeAll_readFile [OF w, of "target P ''app.js''"]
    by (simp add: lastWrite_def baseAppSources_def target_plain plainSeg_base_files)
  show "readFile (fs s') (target P ''package-info.js'')
           = Some (render P ''package-info.js.tpl'' (Config (packageJson P)))"
    using writeAll_readFile [OF w, of "target P ''package-info.js''"]
    by (simp add: lastWrite_def baseAppSources_def target_plain plainSeg_base_files)
qed

lemma filter_remove1_other: "filter (\<lambda>n. n \<noteq> x) (remove1 x xs) = filter (\<lambda>n. n \<noteq> x) xs"
  by (induction xs) auto

lemma remove1_count_one:
  "count_list xs x = 1 \<Longrightarrow> remove1 x xs = filter (\<lambda>n. n \<noteq> x) xs"
proof (induction xs)
  case Nil
  then show ?case by simp
next
  case (Cons a xs)
  show ?case
  proof (cases "a = x")
    case True
    with Cons.prems have "count_list xs x = 0" by simp
    then have "x \<notin> set xs" by (simp add: count_list_0_iff)
    then have "filter (\<lambda>n. n \<noteq> x) xs = xs" by (induction xs) auto
    with True show ?thesis by simp
  next
    case False
    with Cons show ?thesis by simp
  qed
qed

text \<open>
  Claim C4. \<open>generateBaseApp\<close> renders the bootstrap file with the list of platform names
  in which \<open>pc\<close> has been moved to the end: the names are the same, those other than
  \<open>pc\<close> keep their order, and \<open>pc\<close> is last when it occurs; for the platforms
  \<open>[A, B, pc, C]\<close> the list is \<open>[A, B, C, pc]\<close>.
\<close>

theorem generateBaseApp_platforms:
  assumes "generateBaseApp P s = Inr s'"
  shows "readFile (fs s') (target P ''base-application.js'')
           = Some (render P ''base-application.js.tpl'' (Platforms (platformNames P)))
    \<and> mset (platformNames P) = mset (getPlatforms P)
    \<and> filter (\<lambda>n. n \<noteq> ''pc'') (platformNames P) = filter (\<lambda>n. n \<noteq> ''pc'') (getPlatforms P)
    \<and> (''pc'' \<in> set (getPlatforms P) \<longrightarrow> last (platformNames P) = ''pc'')
    \<and> (''pc'' \<notin> set (getPlatforms P) \<longrightarrow> platformNames P = getPlatforms P)
    \<and> (count_list (getPlatforms P) ''pc'' = 1 \<longrightarrow>
         platformNames P = filter (\<lambda>n. n \<noteq> ''pc'') (getPlatforms P) @ [''pc''])
    \<and> (\<forall>A B C. getPlatforms P = [A, B, ''pc'', C] \<and> A \<noteq> ''pc'' \<and> B \<noteq> ''pc'' \<longrightarrow>
         platformNames P = [A, B, C, ''pc''])"
proof -
  have "mset (platformNames P) = mset (getPlatforms P)"
    by (simp add: platformNames_def)
  moreover have "filter (\<lambda>n. n \<noteq> ''pc'') (platformNames P)
                 = filter (\<lambda>n. n \<noteq> ''pc'') (getPlatforms P)"
    by (simp add: platformNames_def filter_remove1_other)
  moreover have "count_list (getPlatforms P) ''pc'' = 1 \<longrightarrow>
         platformNames P = filter (\<lambda>n. n \<noteq> ''pc'') (getPlatforms P) @ [''pc'']"
  proof
    assume c: "count_list (getPlatforms P) ''pc'' = 1"
    then have "''pc'' \<in> set (getPlatforms P)"
      by (metis count_list_0_iff zero_neq_one)
    then show "platformNames P = filter (\<lambda>n. n \<noteq> ''pc'') (getPlatforms P) @ [''pc'']"
      using remove1_count_one [OF c] by (simp add: platformNames_def)
  qed
  moreover have "\<forall>A B C. getPlatforms P = [A, B, ''pc'', C] \<and> A \<noteq> ''pc'' \<and> B \<noteq> ''pc'' \<longrightarrow>
         platformNames P = [A, B, C, ''pc'']"
    by (auto simp: platformNames_def)
  ultimately show ?thesis
    using baseApp_readFile(1) [OF assms] by (auto simp: platformNames_def)
qed

text \<open>The platforms \<open>tv, web, pc, tizen\<close> of the example are rendered as \<open>tv, web, tizen, pc\<close>.\<close>

theorem generateBaseApp_platforms_witness:
  "generateBaseApp exampleProvider exampleState = Inr exampleBaseApp
   \<and> getPlatforms exampleProvider = [''tv'', ''web'', ''pc'', ''tizen'']
   \<and> platformNames exampleProvider = [''tv'', ''web'', ''tizen'', ''pc'']
   \<and> readFile (fs exampleBaseApp) (target exampleProvider ''base-application.js'')
        = Some (render exampleProvider ''base-application.js.tpl''
                  (Platforms [''tv'', ''web'', ''tizen'', ''pc'']))"
proof -
  have 1: "generateBaseApp exampleProvider exampleState = Inr exampleBaseApp"
    by code_simp
  have 2: "getPlatforms exampleProvider = [''tv'', ''web'', ''pc'', ''tizen'']"
    by (simp add: exampleProvider_def)
  from generateBaseApp_platforms [OF 1] 1 2 show ?thesis by auto
qed



lemma dropCommon_prefix: "dropCommon xs (xs @ rest) = ([], rest)"
proof (induction xs)
  case Nil
  then show ?case by (cases rest) simp_all
next
  case (Cons a xs)
  then show ?case by simp
qed

lemma resolveSegs_plain: "x \<in> set (resolveSegs wd p) \<Longrightarrow> plainSeg x"
proof -
  assume x: "x \<in> set (resolveSegs wd p)"
  let ?segs = "splitOn CHR ''/'' (if isAbsolute p then p else wd @ ''/'' @ p)"
  from x have "x \<noteq> []" "x \<noteq> ''.''"
    using normalizeString_elems [of x ?segs False] by (simp_all add: resolveSegs_def)
  moreover have "x \<noteq> ''..''"
    using x foldl_normStep_no_dotdot [of "[]" ?segs]
    by (auto simp: resolveSegs_def normalizeString_def)
  moreover have "x \<in> set ?segs"
    using x foldl_normStep_subset [of False "[]" ?segs]
    by (auto simp: resolveSegs_def normalizeString_def)
  then have "CHR ''/'' \<notin> set x" by (rule splitOn_no_sep)
  ultimately show ?thesis by (simp add: plainSeg_def)
qed

lemma joinWith_last_nonempty: "N \<noteq> [] \<Longrightarrow> last N \<noteq> [] \<Longrightarrow> joinWith sep N \<noteq> []"
  by (induction sep N rule: joinWith.induct) auto

lemma last_joinWith: "N \<noteq> [] \<Longrightarrow> last N \<noteq> [] \<Longrightarrow> last (joinWith sep N) = last (last N)"
proof (induction sep N rule: joinWith.induct)
  case (3 sep x y ys)
  then have "joinWith sep (y # ys) \<noteq> []"
    using joinWith_last_nonempty [of "y # ys" sep] by simp
  with 3 show ?case by simp
qed simp_all

lemma pathNormalize_plain:
  assumes "N \<noteq> []" "\<forall>x \<in> set N. plainSeg x"
  shows "pathNormalize (joinWith ''/'' N) = joinWith ''/'' N"
proof -
  let ?p = "joinWith ''/'' N"
  have ne: "\<forall>x \<in> set N. x \<noteq> []" and nosep: "\<forall>x \<in> set N. CHR ''/'' \<notin> set x"
    and pl: "\<forall>x \<in> set N. x \<noteq> [] \<and> x \<noteq> ''.'' \<and> x \<noteq> ''..''"
    using assms(2) by (auto simp: plainSeg_def)
  have p: "?p \<noteq> []" using joinWith_Nil_iff [OF ne] assms(1) by simp
  have "hd ?p = hd (hd N)" using hd_joinWith [of N "''/''"] assms(1) ne by simp
  then have abs: "\<not> isAbsolute ?p"
    using assms(1) ne nosep by (metis hd_in_set isAbsolute_def list.set_sel(1))
  have "last ?p = last (last N)" using last_joinWith [of N "''/''"] assms(1) ne by simp
  then have tr: "\<not> trailingSeparator ?p"
    using assms(1) ne nosep by (metis last_in_set trailingSeparator_def)
  have "normalizeString (splitOn CHR ''/'' ?p) True = N"
    using splitOn_joinWith [OF assms(1) nosep] foldl_normStep_plain [OF pl, of True "[]"]
    by (simp add: normalizeString_def)
  then show ?thesis using p abs tr by (simp add: pathNormalize_def)
qed

lemma pathJoin_plain:
  assumes "plainSeg n" "rest \<noteq> []" "\<forall>x \<in> set rest. plainSeg x"
  shows "pathJoin n (joinWith ''/'' rest) = n @ ''/'' @ joinWith ''/'' rest"
proof -
  have n: "n \<noteq> []" using assms(1) by (simp add: plainSeg_def)
  have r: "joinWith ''/'' rest \<noteq> []"
    using joinWith_Nil_iff [of rest "''/''"] assms(2,3) by (auto simp: plainSeg_def)
  have j: "joinWith ''/'' (n # rest) = n @ ''/'' @ joinWith ''/'' rest"
    using assms(2) by (cases rest) auto
  show ?thesis
    using pathNormalize_plain [of "n # rest"] assms n r by (simp add: pathJoin_def j)
qed

text \<open>
  Claim C7, as amended. The entry file \<open>app.js\<close> is rendered with the name of the project
  joined with the path of the entry module relative to the source root, a trailing
  \<open>.js\<close> removed: when the entry module lies below the source root at the segments
  \<open>rest\<close> and the project name is a plain segment, the path is the name, a slash and
  the segments joined with slashes, without the trailing \<open>.js\<close>.
\<close>

theorem generateBaseApp_entry:
  assumes "generateBaseApp P s = Inr s'"
  shows "readFile (fs s') (target P ''app.js'')
           = Some (render P ''app.js.tpl''
                (Path (stripJs
                   (pathJoin (projectName (buildConfig P))
                      (pathRelative (cwd P)
                         (resolveAbsolutePath P (projectSrc (buildConfig P)))
                         (resolveAbsolutePath P (projectEntry (buildConfig P))))))))
    \<and> (\<forall>rest. plainSeg (projectName (buildConfig P)) \<and> rest \<noteq> []
          \<and> resolveSegs (cwd P) (resolveAbsolutePath P (projectEntry (buildConfig P)))
              = resolveSegs (cwd P) (resolveAbsolutePath P (projectSrc (buildConfig P))) @ rest
          \<longrightarrow> readFile (fs s') (target P ''app.js'')
                = Some (render P ''app.js.tpl''
                     (Path (stripJs (projectName (buildConfig P) @ ''/'' @ joinWith ''/'' rest)))))"
proof -
  have a: "readFile (fs s') (target P ''app.js'')
           = Some (render P ''app.js.tpl'' (Path (stripJs (mainPath P))))"
    using baseApp_readFile(2) [OF assms] .
  have "mainPath P = projectName (buildConfig P) @ ''/'' @ joinWith ''/'' rest"
    if "plainSeg (projectName (buildConfig P))" "rest \<noteq> []"
      "resolveSegs (cwd P) (resolveAbsolutePath P (projectEntry (buildConfig P)))
         = resolveSegs (cwd P) (resolveAbsolutePath P (projectSrc (buildConfig P))) @ rest"
    for rest
  proof -
    have "\<forall>x \<in> set rest. plainSeg x"
      using resolveSegs_plain [of _ "cwd P" "resolveAbsolutePath P (projectEntry (buildConfig P))"]
        that(3) by auto
    then show ?thesis
      using that pathJoin_plain [of "projectName (buildConfig P)" rest]
      by (simp add: mainPath_def pathRelative_def dropCommon_prefix)
  qed
  then show ?thesis using a by (auto simp: mainPath_def)
qed

text \<open>In the example the entry \<open>/p/src/main.js\<close> of the project \<open>app\<close> gives \<open>app/main\<close>.\<close>

theorem generateBaseApp_entry_witness:
  "generateBaseApp exampleProvider exampleState = Inr exampleBaseApp
   \<and> plainSeg (projectName (buildConfig exampleProvider)) \<and> [''main.js''] \<noteq> []
   \<and> resolveSegs (cwd exampleProvider)
        (resolveAbsolutePath exampleProvider (projectEntry (buildConfig exampleProvider)))
      = resolveSegs (cwd exampleProvider)
          (resolveAbsolutePath exampleProvider (projectSrc (buildConfig exampleProvider)))
        @ [''main.js'']
   \<and> readFile (fs exampleBaseApp) (target exampleProvider ''app.js'')
      = Some (render exampleProvider ''app.js.tpl'' (Path ''app/main''))"
proof -
  have 1: "generateBaseApp exampleProvider exampleState = Inr exampleBaseApp"
    by code_simp
  have 2: "plainSeg (projectName (buildConfig exampleProvider))"
    by (simp add: plainSeg_def exampleProvider_def exampleConfig_def)
  have 3: "resolveSegs (cwd exampleProvider)
        (resolveAbsolutePath exampleProvider (projectEntry (buildConfig exampleProvider)))
      = resolveSegs (cwd exampleProvider)
          (resolveAbsolutePath exampleProvider (projectSrc (buildConfig exampleProvider)))
        @ [''main.js'']"
    by code_simp
  have 4: "stripJs (projectName (buildConfig exampleProvider) @ ''/'' @ joinWith ''/'' [''main.js''])
           = ''app/main''"
    by code_simp
  from generateBaseApp_entry [OF 1] have
    "readFile (fs exampleBaseApp) (target exampleProvider ''app.js'')
      = Some (render exampleProvider ''app.js.tpl''
          (Path (stripJs (projectName (buildConfig exampleProvider) @ ''/'' @ joinWith ''/'' [''main.js'']))))"
    using 2 3 by blast
  then show ?thesis using 1 2 3 4 by simp
qed

text \<open>
  Claim C7 as stated fails: in the example \<open>app.js\<close> holds \<open>app/main\<close>, which is not the
  path \<open>main\<close> of the entry module relative to the source root.
\<close>

theorem entry_not_relative_counterexample:
  "generateBaseApp exampleProvider exampleState = Inr exampleBaseApp
   \<and> readFile (fs exampleBaseApp) (target exampleProvider ''app.js'') = Some ''app/main''
   \<and> readFile (fs exampleBaseApp) (target exampleProvider ''app.js'')
      \<noteq> Some (render exampleProvider ''app.js.tpl''
        (Path (stripJs (pathRelative (cwd exampleProvider)
           (resolveAbsolutePath exampleProvider (projectSrc (buildConfig exampleProvider)))
           (resolveAbsolutePath exampleProvider (projectEntry (buildConfig exampleProvider)))))))"
  by code_simp

section \<open>Determinism of the defines module\<close>

lemma firstIndex_append_in: "y \<in> set xs \<Longrightarrow> firstIndex (xs @ ys) y = firstIndex xs y"
  by (simp add: firstIndex_def takeWhile_append1 [of y xs])

lemma firstIndex_less: "y \<in> set xs \<Longrightarrow> firstIndex xs y < length xs"
  unfolding firstIndex_def by (induction xs) auto

lemma firstIndex_snoc_new: "x \<notin> set xs \<Longrightarrow> firstIndex (xs @ [x]) x = length xs"
  unfolding firstIndex_def by (induction xs) auto

lemma arrayFromSet_snoc: "arrayFromSet (xs @ [x]) = setAdd (arrayFromSet xs) x"
  by (simp add: arrayFromSet_def)

lemma arrayFromSet_first_occurrence:
  "sorted_wrt (\<lambda>x y. firstIndex xs x < firstIndex xs y) (arrayFromSet xs)"
proof (induction xs rule: rev_induct)
  case Nil
  then show ?case by (simp add: arrayFromSet_def)
next
  case (snoc x xs)
  have same: "sorted_wrt (\<lambda>a b. firstIndex (xs @ [x]) a < firstIndex (xs @ [x]) b) (arrayFromSet xs)"
  proof (rule sorted_wrt_mono_rel [OF _ snoc.IH])
    fix a b
    assume "a \<in> set (arrayFromSet xs)" "b \<in> set (arrayFromSet xs)"
      "firstIndex xs a < firstIndex xs b"
    then show "firstIndex (xs @ [x]) a < firstIndex (xs @ [x]) b"
      by (simp add: arrayFromSet_set firstIndex_append_in)
  qed
  show ?case
  proof (cases "x \<in> set xs")
    case True
    then show ?thesis
      using same by (simp add: arrayFromSet_snoc setAdd_def arrayFromSet_set)
  next
    case False
    have "\<forall>a \<in> set (arrayFromSet xs). firstIndex (xs @ [x]) a < firstIndex (xs @ [x]) x"
      using False by (simp add: arrayFromSet_set firstIndex_append_in firstIndex_less
          firstIndex_snoc_new)
    then show ?thesis
      using same False by (simp add: arrayFromSet_snoc setAdd_def arrayFromSet_set sorted_wrt_append)
  qed
qed

text \<open>
  Claim C10. The text \<open>generateDefines\<close> writes is a function of the define mapping alone:
  two runs with the same mapping, whatever the provider and the state otherwise, leave
  the same text in \<open>define.js\<close>. The element type of a non-empty array lists the tags of
  its members once each, in the order of their first occurrence in the array.
\<close>

theorem generateDefines_deterministic:
  assumes "configDefine (buildConfig P) = configDefine (buildConfig P')"
    and "generateDefines P s = Inr t" and "generateDefines P' s' = Inr t'"
  shows "readFile (fs t) (target P ''define.js'') = Some (content (configDefine (buildConfig P)))
    \<and> readFile (fs t') (target P' ''define.js'') = readFile (fs t) (target P ''define.js'')
    \<and> (\<forall>a. a \<noteq> [] \<longrightarrow>
          getArrayContentsType a = joinWith ''|'' (arrayFromSet (map getGCCType a))
          \<and> distinct (arrayFromSet (map getGCCType a))
          \<and> set (arrayFromSet (map getGCCType a)) = getGCCType ` set a
          \<and> sorted_wrt (\<lambda>x y. firstIndex (map getGCCType a) x < firstIndex (map getGCCType a) y)
                (arrayFromSet (map getGCCType a)))"
proof -
  have "readFile (fs t) (target P ''define.js'') = Some (content (configDefine (buildConfig P)))"
    using writeFile_Inr(1) assms(2) by (simp add: generateDefines_def)
  moreover have "readFile (fs t') (target P' ''define.js'')
                 = Some (content (configDefine (buildConfig P')))"
    using writeFile_Inr(1) assms(3) by (simp add: generateDefines_def)
  moreover have "getArrayContentsType a = joinWith ''|'' (arrayFromSet (map getGCCType a))
          \<and> distinct (arrayFromSet (map getGCCType a))
          \<and> set (arrayFromSet (map getGCCType a)) = getGCCType ` set a
          \<and> sorted_wrt (\<lambda>x y. firstIndex (map getGCCType a) x < firstIndex (map getGCCType a) y)
                (arrayFromSet (map getGCCType a))"
    if "a \<noteq> []" for a
  proof (intro conjI)
    show "getArrayContentsType a = joinWith ''|'' (arrayFromSet (map getGCCType a))"
      using that by simp
    show "distinct (arrayFromSet (map getGCCType a))"
      by (rule arrayFromSet_distinct)
    show "set (arrayFromSet (map getGCCType a)) = getGCCType ` set a"
      by (simp add: arrayFromSet_set del: getGCCType.simps)
    show "sorted_wrt (\<lambda>x y. firstIndex (map getGCCType a) x < firstIndex (map getGCCType a) y)
                (arrayFromSet (map getGCCType a))"
      by (rule arrayFromSet_first_occurrence)
  qed
  ultimately show ?thesis
    using assms(1) by metis
qed

text \<open>
  Two runs in the example, from different trees, write the same text; the members
  \<open>1, "a", 2, null\<close> give \<open>number|string|null\<close>.
\<close>

theorem generateDefines_deterministic_witness:
  "configDefine (buildConfig exampleProvider) = configDefine (buildConfig exampleProvider)
   \<and> generateDefines exampleProvider exampleState = Inr exampleDefines
   \<and> generateDefines exampleProvider initialState = Inr exampleDefinesInitial
   \<and> readFile (fs exampleDefinesInitial) (target exampleProvider ''define.js'')
      = readFile (fs exampleDefines) (target exampleProvider ''define.js'')
   \<and> [JNumber 1, JString ''a'', JNumber 2, JNull] \<noteq> []
   \<and> getArrayContentsType [JNumber 1, JString ''a'', JNumber 2, JNull] = ''number|string|null''"
proof -
  have 1: "generateDefines exampleProvider exampleState = Inr exampleDefines"
    by code_simp
  have 2: "generateDefines exampleProvider initialState = Inr exampleDefinesInitial"
    by code_simp
  have 3: "getArrayContentsType [JNumber 1, JString ''a'', JNumber 2, JNull] = ''number|string|null''"
    by code_simp
  from generateDefines_deterministic [OF refl 1 2] 1 2 3 show ?thesis by simp
qed

section \<open>Cleaning the output root\<close>

lemma pathNormalize_nonempty: "pathNormalize p \<noteq> []"
  by (simp add: pathNormalize_def Let_def)

lemma pathJoin_nonempty: "pathJoin a b \<noteq> []"
  by (simp add: pathJoin_def pathNormalize_nonempty)

lemma plainSeg_no_trailing: "plainSeg n \<Longrightarrow> \<not> trailingSeparator (p @ n)"
proof -
  assume "plainSeg n"
  then have n: "n \<noteq> []" and "CHR ''/'' \<notin> set n" by (simp_all add: plainSeg_def)
  then have "last n \<noteq> CHR ''/''" by (metis last_in_set)
  then show ?thesis using n by (simp add: trailingSeparator_def)
qed

lemma pathNormalize_no_trailing:
  assumes "p \<noteq> []" "\<not> trailingSeparator p"
    and "normalizeString (splitOn CHR ''/'' p) (\<not> isAbsolute p) \<noteq> []"
  shows "\<not> trailingSeparator (pathNormalize p)"
proof -
  let ?N = "normalizeString (splitOn CHR ''/'' p) (\<not> isAbsolute p)"
  let ?s = "joinWith ''/'' ?N"
  have ne: "\<forall>x \<in> set ?N. x \<noteq> []"
    using normalizeString_elems by blast
  have nosep: "\<forall>x \<in> set ?N. CHR ''/'' \<notin> set x"
    using foldl_normStep_subset [of "\<not> isAbsolute p" "[]" "splitOn CHR ''/'' p"] splitOn_no_sep
    by (fastforce simp: normalizeString_def)
  have s: "?s \<noteq> []" using joinWith_Nil_iff [OF ne] assms(3) by simp
  have "last ?s = last (last ?N)"
    using last_joinWith [of ?N "''/''"] assms(3) ne by simp
  then have "last ?s \<noteq> CHR ''/''"
    using assms(3) ne nosep by (metis last_in_set)
  then show ?thesis
    using assms(1,2) s by (simp add: pathNormalize_def Let_def trailingSeparator_def)
qed

lemma normalizeString_snoc_plain:
  "plainSeg n \<Longrightarrow> normalizeString (X @ [n]) al = normalizeString X al @ [n]"
  by (simp add: normalizeString_def plainSeg_def normStep_push)

lemma pathJoin_plain_no_trailing:
  assumes "plainSeg n"
  shows "\<not> trailingSeparator (pathJoin a n)"
proof -
  have n: "n \<noteq> []" using assms by (simp add: plainSeg_def)
  have sn: "splitOn CHR ''/'' n = [n]"
    using assms by (simp add: plainSeg_def splitOn_plain)
  have 1: "\<not> trailingSeparator (pathNormalize n)"
  proof (rule pathNormalize_no_trailing [OF n])
    show "\<not> trailingSeparator n" using plainSeg_no_trailing [OF assms, of "[]"] by simp
    show "normalizeString (splitOn CHR ''/'' n) (\<not> isAbsolute n) \<noteq> []"
      using normalizeString_snoc_plain [OF assms, of "[]"] by (simp add: sn)
  qed
  have 2: "\<not> trailingSeparator (pathNormalize (a @ ''/'' @ n))"
  proof (rule pathNormalize_no_trailing)
    show "a @ ''/'' @ n \<noteq> []" by simp
    show "\<not> trailingSeparator (a @ ''/'' @ n)"
      using plainSeg_no_trailing [OF assms, of "a @ ''/''"] by simp
    have "splitOn CHR ''/'' (a @ ''/'' @ n) = splitOn CHR ''/'' a @ [n]"
      using splitOn_append [of "CHR ''/''" a n] by (simp add: sn)
    then show "normalizeString (splitOn CHR ''/'' (a @ ''/'' @ n)) (\<not> isAbsolute (a @ ''/'' @ n)) \<noteq> []"
      using normalizeString_snoc_plain [OF assms] by simp
  qed
  show ?thesis
    using n 1 2 by (simp add: pathJoin_def)
qed

lemma lookup_append:
  "lookup t (p @ q) = (case lookup t p of None \<Rightarrow> None | Some m \<Rightarrow> lookup m q)"
  by (induction p arbitrary: t) (auto split: node.splits option.splits)

lemma removeAt_Cons:
  "ss \<noteq> [] \<Longrightarrow> removeAt n (s # ss) =
     (case n of
        File c \<Rightarrow> File c
      | Dir es \<Rightarrow>
          (case map_of es s of
             None \<Rightarrow> Dir es
           | Some ch \<Rightarrow> Dir (AList.update s (removeAt ch ss) es)))"
  by (cases ss) auto

lemma removeAt_lookup_parent:
  "lookup t R = Some (Dir es) \<Longrightarrow> lookup (removeAt t (R @ [n])) R = Some (Dir (AList.delete n es))"
proof (induction R arbitrary: t)
  case Nil
  then show ?case by simp
next
  case (Cons r R)
  from Cons.prems obtain es0 ch where t: "t = Dir es0" and ch: "map_of es0 r = Some ch"
    and l: "lookup ch R = Some (Dir es)"
    by (auto split: node.splits option.splits)
  show ?case
    using Cons.IH [OF l] by (simp add: removeAt_Cons t ch AList.update_conv')
qed


text \<open>One round of the loop of \<open>clean\<close> on an entry that is there.\<close>

lemma cleanEntry_visible:
  assumes "lookup (fs s) (resolveSegs (cwd P) (root P)) = Some (Dir es)"
    and "map_of es n = Some x" and "plainSeg n" and "\<not> startsWithDot n"
  shows "cleanEntry P n s
         = Inr (s\<lparr>fs := removeAt (fs s) (resolveSegs (cwd P) (root P) @ [n])\<rparr>)"
proof -
  let ?src = "pathJoin (root P) n"
  have segs: "resolveSegs (cwd P) ?src = resolveSegs (cwd P) (root P) @ [n]"
    using assms(3) by (rule resolveSegs_pathJoin_plain_any)
  have l: "lookup (fs s) (resolveSegs (cwd P) ?src) = Some x"
    using assms(1,2) by (simp add: segs lookup_append)
  have st: "statSync (cwd P) (fs s) ?src = Inr x"
    using l pathJoin_nonempty [of "root P" n] pathJoin_plain_no_trailing [OF assms(3), of "root P"]
    by (cases x) (simp_all add: statSync_def)
  show ?thesis
    using st assms(4) segs
    by (cases x) (simp_all add: cleanEntry_def Let_def isFile_def fsCall_def unlinkSync_def
        removeSync_def)
qed




text \<open>
  The converse fails: in the example \<open>/out/lib/..\<close> is the root for both, but
  \<open>/gen/../out\<close> names nothing for the kernel, \<open>/gen\<close> being absent, while the lexical
  resolution finds the root. A root given by such a path is outside the theorem below.
\<close>

lemma kernelSegs_example:
  "kernelSegs ''/w'' (fs exampleState) ''/out/lib/..'' = Some [''out'']
   \<and> kernelSegs ''/w'' (fs exampleState) ''/gen/../out'' = None
   \<and> resolveSegs ''/w'' ''/gen/../out'' = [''out'']"
  by code_simp




section \<open>Notifications of an extension\<close>










section \<open>The registry of written files\<close>

text \<open>
  \<open>_writeFile\<close> adds a path to the registry only when it is not there, and \<open>clean\<close>
  empties the registry when the output root exists; when it does not, \<open>clean\<close> returns
  before the registry is touched.
\<close>

lemma clean_files:
  "clean P s = Inr s' \<Longrightarrow>
   (if pathExistsSync (cwd P) (fs s) (root P) then files s' = [] else s' = s)"
  by (auto simp: clean_def andThen_def split: sum.splits if_splits)

lemma writeFile_distinct:
  "writeFile P src body s = Inr s' \<Longrightarrow> distinct (files s) \<Longrightarrow> distinct (files s')"
  using writeFile_Inr(3) [of P src body s s'] by auto

text \<open>
  Claim C3 says that every call of \<open>clean\<close> leaves the registry empty, also when the
  output root does not exist. Here the root \<open>/out\<close> does not exist, the extension \<open>foo\<close>
  sends the key \<open>../../x.js\<close>, which is written to \<open>/x.js\<close>, and \<open>clean\<close> then returns
  with \<open>/x.js\<close> still in the registry; so it does from any state with a registry that
  is not empty and no output root.
\<close>

theorem clean_keeps_registry:
  "lookup (fs initialState) (resolveSegs (cwd exampleProvider) (root exampleProvider)) = None
   \<and> andThen (emitGenerated exampleProvider 0 [(''../../x.js'', ''c'')] initialState)
        (clean exampleProvider)
      = Inr \<lparr>fs = Dir [(''x.js'', File ''c'')], files = [''/x.js''],
             emitted = [EventChanged ''/x.js'', EventAny ''/x.js'']\<rparr>
   \<and> clean exampleProvider \<lparr>fs = Dir [], files = [''/out/app.js''], emitted = []\<rparr>
      = Inr \<lparr>fs = Dir [], files = [''/out/app.js''], emitted = []\<rparr>"
  by code_simp

section \<open>Building twice\<close>

lemma kind_Nil: "kind t [] = (case t of File c \<Rightarrow> IsFile | Dir es \<Rightarrow> IsDir)"
  by (simp add: kind_def split: node.splits)

lemma kind_Cons:
  "kind t (q # qs) =
     (case t of File c \<Rightarrow> Absent
      | Dir es \<Rightarrow> (case map_of es q of None \<Rightarrow> Absent | Some ch \<Rightarrow> kind ch qs))"
  by (simp add: kind_def split: node.splits option.splits)

lemma kind_above: "kind t (p @ q) \<noteq> Absent \<Longrightarrow> q \<noteq> [] \<Longrightarrow> kind t p = IsDir"
proof (induction p arbitrary: t)
  case Nil
  then show ?case by (cases q; cases t) (auto simp: kind_Nil kind_Cons)
next
  case (Cons a p)
  then show ?case by (auto simp: kind_Cons split: node.splits option.splits)
qed

lemma kind_strict_prefix: "kind t q \<noteq> Absent \<Longrightarrow> strict_prefix p q \<Longrightarrow> kind t p = IsDir"
  using kind_above [of t p] by (auto simp: strict_prefix_def prefix_def)

lemma mkdirp_kind:
  "mkdirp t p = Inr t' \<Longrightarrow> kind t' q = (if prefix q p then IsDir else kind t q)"
proof (induction p arbitrary: t t' q)
  case Nil
  then show ?case by (auto simp: kind_Nil split: node.splits)
next
  case (Cons s ss)
  from Cons.prems obtain es where t: "t = Dir es" by (cases t) auto
  let ?ch = "case map_of es s of None \<Rightarrow> Dir [] | Some ch \<Rightarrow> ch"
  from Cons.prems t obtain ch' where m: "mkdirp ?ch ss = Inr ch'"
    and t': "t' = Dir (AList.update s ch' es)"
    by (auto split: sum.splits)
  note ih = Cons.IH [OF m]
  show ?case
  proof (cases q)
    case Nil
    then show ?thesis by (simp add: t t' kind_Nil)
  next
    case q: (Cons q1 qs)
    show ?thesis
    proof (cases "q1 = s")
      case True
      have "kind ?ch qs = (case map_of es s of None \<Rightarrow> (if qs = [] then IsDir else Absent)
                            | Some ch \<Rightarrow> kind ch qs)"
        by (cases qs) (auto simp: kind_Nil kind_Cons split: option.splits)
      then show ?thesis
        using ih [of qs] True
        by (auto simp: q t t' kind_Cons AList.update_conv' split: option.splits)
    next
      case False
      then show ?thesis by (simp add: q t t' kind_Cons AList.update_conv')
    qed
  qed
qed

lemma mkdirp_succeeds:
  "\<forall>q. prefix q p \<longrightarrow> kind t q \<noteq> IsFile \<Longrightarrow> \<exists>t'. mkdirp t p = Inr t'"
proof (induction p arbitrary: t)
  case Nil
  then show ?case by (cases t) (auto simp: kind_Nil)
next
  case (Cons s ss)
  from Cons.prems [rule_format, of "[]"] obtain es where t: "t = Dir es"
    by (cases t) (auto simp: kind_Nil)
  let ?ch = "case map_of es s of None \<Rightarrow> Dir [] | Some ch \<Rightarrow> ch"
  have "\<forall>q. prefix q ss \<longrightarrow> kind ?ch q \<noteq> IsFile"
  proof (intro allI impI)
    fix q assume "prefix q ss"
    then have "kind t (s # q) \<noteq> IsFile" using Cons.prems by simp
    then show "kind ?ch q \<noteq> IsFile"
      by (cases q) (auto simp: t kind_Cons kind_Nil split: option.splits)
  qed
  from Cons.IH [OF this] show ?case by (auto simp: t)
qed

lemma writeAt_kind:
  "writeAt t p c = Inr t' \<Longrightarrow> kind t' q = (if q = p then IsFile else kind t q)"
proof (induction t p c arbitrary: t' q rule: writeAt.induct)
  case (1 n content)
  then show ?case by simp
next
  case (2 n s content)
  then show ?case
    by (cases q; cases "tl q")
       (auto simp: kind_Cons kind_Nil AList.update_conv' split: node.splits option.splits if_splits)
next
  case (3 n s v va content)
  from "3.prems" obtain es ch ch' where n: "n = Dir es" and ch: "map_of es s = Some ch"
    and w: "writeAt ch (v # va) content = Inr ch'" and t': "t' = Dir (AList.update s ch' es)"
    by (auto split: node.splits option.splits sum.splits)
  show ?case
  proof (cases q)
    case Nil
    then show ?thesis by (simp add: n t' kind_Nil)
  next
    case (Cons q1 qs)
    show ?thesis
    proof (cases "q1 = s")
      case True
      from "3.IH" [OF n ch w, of qs] show ?thesis
        by (simp add: Cons True n t' ch kind_Cons AList.update_conv')
    next
      case False
      then show ?thesis by (simp add: Cons n t' kind_Cons AList.update_conv')
    qed
  qed
qed

lemma writeAt_pre:
  "writeAt t p c = Inr t' \<Longrightarrow> p \<noteq> [] \<and> kind t (butlast p) = IsDir \<and> kind t p \<noteq> IsDir"
proof (induction t p c arbitrary: t' rule: writeAt.induct)
  case (1 n content)
  then show ?case by simp
next
  case (2 n s content)
  then show ?case
    by (auto simp: kind_Cons kind_Nil split: node.splits option.splits)
next
  case (3 n s v va content)
  from "3.prems" obtain es ch ch' where n: "n = Dir es" and ch: "map_of es s = Some ch"
    and w: "writeAt ch (v # va) content = Inr ch'"
    by (auto split: node.splits option.splits sum.splits)
  from "3.IH" [OF n ch w] show ?case
    by (simp add: n ch kind_Cons)
qed

lemma writeAt_succeeds:
  "p \<noteq> [] \<Longrightarrow> kind t (butlast p) = IsDir \<Longrightarrow> kind t p \<noteq> IsDir \<Longrightarrow> \<exists>t'. writeAt t p c = Inr t'"
proof (induction t p c rule: writeAt.induct)
  case (1 n content)
  then show ?case by simp
next
  case (2 n s content)
  then show ?case
    by (auto simp: kind_Cons kind_Nil split: node.splits option.splits)
next
  case (3 n s v va content)
  from "3.prems"(2) obtain es ch where n: "n = Dir es" and ch: "map_of es s = Some ch"
    by (auto simp: kind_Cons split: node.splits option.splits if_splits)
  from "3.IH" [OF n ch] "3.prems" show ?case
    by (auto simp: n ch kind_Cons)
qed

lemma existsSync_kind:
  "existsSync wd t p \<longleftrightarrow>
     p \<noteq> [] \<and> (kind t (resolveSegs wd p) = IsDir
               \<or> kind t (resolveSegs wd p) = IsFile \<and> \<not> trailingSeparator p)"
  by (auto simp: existsSync_def statSync_def kind_def split: option.splits node.splits)

lemma below_refl: "below t t"
  by (simp add: below_def)

lemma below_trans: "below t u \<Longrightarrow> below u v \<Longrightarrow> below t v"
  by (simp add: below_def)

lemma mkdirp_pre: "mkdirp t p = Inr t' \<Longrightarrow> prefix q p \<Longrightarrow> kind t q \<noteq> IsFile"
proof (induction p arbitrary: t t' q)
  case Nil
  then show ?case by (auto simp: kind_Nil split: node.splits)
next
  case (Cons s ss)
  from Cons.prems obtain es where t: "t = Dir es" by (cases t) auto
  let ?ch = "case map_of es s of None \<Rightarrow> Dir [] | Some ch \<Rightarrow> ch"
  from Cons.prems t obtain ch' where m: "mkdirp ?ch ss = Inr ch'"
    by (auto split: sum.splits)
  show ?case
  proof (cases q)
    case Nil
    then show ?thesis by (simp add: t kind_Nil)
  next
    case q: (Cons q1 qs)
    with Cons.prems(2) have "q1 = s" "prefix qs ss" by simp_all
    from Cons.IH [OF m this(2)] show ?thesis
      by (auto simp: q \<open>q1 = s\<close> t kind_Cons split: option.splits)
  qed
qed

lemma writeFile_elim:
  assumes "writeFile P src c s = Inr s'"
  obtains t1 where
    "if existsSync (cwd P) (fs s) (pathDirname (pathJoin (root P) src)) then t1 = fs s
     else mkdirp (fs s) (resolveSegs (cwd P) (pathDirname (pathJoin (root P) src))) = Inr t1"
    and "pathJoin (root P) src \<noteq> []" and "\<not> trailingSeparator (pathJoin (root P) src)"
    and "writeAt t1 (target P src) c = Inr (fs s')"
  using assms
  by (auto simp: writeFile_def Let_def andThen_def fsCall_def ensureDirSync_def writeFileSync_def
      target_def split: if_splits sum.splits)

lemma writeFile_intro:
  assumes "if existsSync (cwd P) (fs s) (pathDirname (pathJoin (root P) src)) then t1 = fs s
     else mkdirp (fs s) (resolveSegs (cwd P) (pathDirname (pathJoin (root P) src))) = Inr t1"
    and "pathJoin (root P) src \<noteq> []" and "\<not> trailingSeparator (pathJoin (root P) src)"
    and "writeAt t1 (target P src) c = Inr t2"
  shows "\<exists>s'. writeFile P src c s = Inr s' \<and> fs s' = t2"
  using assms
  by (auto simp: writeFile_def Let_def andThen_def fsCall_def ensureDirSync_def writeFileSync_def
      target_def split: if_splits sum.splits)

lemma writeFile_below:
  assumes "writeFile P src c s = Inr s'"
  shows "below (fs s) (fs s')"
proof -
  from assms obtain t1 where
    t1: "if existsSync (cwd P) (fs s) (pathDirname (pathJoin (root P) src)) then t1 = fs s
     else mkdirp (fs s) (resolveSegs (cwd P) (pathDirname (pathJoin (root P) src))) = Inr t1"
    and w: "writeAt t1 (target P src) c = Inr (fs s')"
    by (rule writeFile_elim)
  have 1: "below (fs s) t1"
  proof (cases "existsSync (cwd P) (fs s) (pathDirname (pathJoin (root P) src))")
    case True
    then show ?thesis using t1 by (simp add: below_refl)
  next
    case False
    with t1 have m: "mkdirp (fs s) (resolveSegs (cwd P) (pathDirname (pathJoin (root P) src))) = Inr t1"
      by simp
    show ?thesis
      unfolding below_def
    proof (intro allI impI)
      fix q assume a: "kind (fs s) q \<noteq> Absent"
      show "kind t1 q = kind (fs s) q"
        using mkdirp_kind [OF m, of q] mkdirp_pre [OF m, of q] a
        by (cases "kind (fs s) q") auto
    qed
  qed
  have 2: "below t1 (fs s')"
    unfolding below_def
  proof (intro allI impI)
    fix q assume a: "kind t1 q \<noteq> Absent"
    show "kind (fs s') q = kind t1 q"
    proof (cases "q = target P src")
      case True
      then show ?thesis
        using writeAt_kind [OF w, of q] writeAt_pre [OF w] a by (cases "kind t1 q") auto
    next
      case False
      then show ?thesis using writeAt_kind [OF w, of q] by simp
    qed
  qed
  from 1 2 show ?thesis by (rule below_trans)
qed

lemma writeFile_simulation:
  assumes run: "writeFile P src c s = Inr s'"
    and su: "below (fs s) (fs u)" and uT: "below (fs u) T" and s'T: "below (fs s') T"
  shows "\<exists>u'. writeFile P src c u = Inr u' \<and> below (fs s') (fs u') \<and> below (fs u') T"
proof -
  let ?ds = "pathDirname (pathJoin (root P) src)"
  let ?d = "resolveSegs (cwd P) ?ds"
  let ?p = "target P src"
  from run obtain t1 where
    t1: "if existsSync (cwd P) (fs s) ?ds then t1 = fs s else mkdirp (fs s) ?d = Inr t1"
    and f: "pathJoin (root P) src \<noteq> []" "\<not> trailingSeparator (pathJoin (root P) src)"
    and w: "writeAt t1 ?p c = Inr (fs s')"
    by (rule writeFile_elim)
  have K': "kind (fs s') q = (if q = ?p then IsFile else kind t1 q)" for q
    using writeAt_kind [OF w] .
  have pre: "?p \<noteq> []" "kind t1 (butlast ?p) = IsDir" "kind t1 ?p \<noteq> IsDir"
    using writeAt_pre [OF w] by simp_all
  have Tp: "kind T ?p = IsFile"
    using s'T K' [of ?p] by (simp add: below_def)
  have T1: "kind T q = kind t1 q" if "kind t1 q \<noteq> Absent" "q \<noteq> ?p" for q
    using s'T K' [of q] that by (simp add: below_def)
  text \<open>The tree the second run writes into.\<close>
  have "\<exists>u1. (if existsSync (cwd P) (fs u) ?ds then u1 = fs u else mkdirp (fs u) ?d = Inr u1)
            \<and> below t1 u1 \<and> below u1 T"
  proof (cases "existsSync (cwd P) (fs s) ?ds")
    case True
    then have e: "t1 = fs s" using t1 by simp
    from True have "kind (fs s) ?d \<noteq> Absent" by (auto simp: existsSync_kind)
    then have "kind (fs u) ?d = kind (fs s) ?d" using su by (simp add: below_def)
    with True have "existsSync (cwd P) (fs u) ?ds" by (simp add: existsSync_kind)
    then show ?thesis using e su uT by auto
  next
    case False
    with t1 have m: "mkdirp (fs s) ?d = Inr t1" by simp
    have K1: "kind t1 q = (if prefix q ?d then IsDir else kind (fs s) q)" for q
      using mkdirp_kind [OF m] .
    have Td: "kind T q = IsDir" if "prefix q ?d" for q
    proof -
      have "kind t1 q = IsDir" using K1 that by simp
      moreover from this pre(3) have "q \<noteq> ?p" by auto
      ultimately show ?thesis using T1 [of q] by simp
    qed
    show ?thesis
    proof (cases "existsSync (cwd P) (fs u) ?ds")
      case True
      then have ud: "kind (fs u) ?d \<noteq> Absent" by (auto simp: existsSync_kind)
      have "below t1 (fs u)"
        unfolding below_def
      proof (intro allI impI)
        fix q assume a: "kind t1 q \<noteq> Absent"
        show "kind (fs u) q = kind t1 q"
        proof (cases "prefix q ?d")
          case pq: True
          have "kind (fs u) q \<noteq> Absent"
          proof (cases "q = ?d")
            case True
            then show ?thesis using ud by simp
          next
            case False
            with pq have "strict_prefix q ?d" by (simp add: strict_prefix_def)
            from kind_strict_prefix [OF ud this] show ?thesis by simp
          qed
          then have "kind (fs u) q = kind T q" using uT by (simp add: below_def)
          then show ?thesis using Td [OF pq] K1 [of q] pq by simp
        next
          case False
          then show ?thesis using K1 [of q] a su by (simp add: below_def)
        qed
      qed
      then show ?thesis using True uT by auto
    next
      case False
      have "\<forall>q. prefix q ?d \<longrightarrow> kind (fs u) q \<noteq> IsFile"
      proof (intro allI impI)
        fix q assume pq: "prefix q ?d"
        show "kind (fs u) q \<noteq> IsFile"
        proof
          assume "kind (fs u) q = IsFile"
          then have "kind T q = IsFile" using uT by (simp add: below_def)
          with Td [OF pq] show False by simp
        qed
      qed
      from mkdirp_succeeds [OF this] obtain u1 where mu: "mkdirp (fs u) ?d = Inr u1" by blast
      have U1: "kind u1 q = (if prefix q ?d then IsDir else kind (fs u) q)" for q
        using mkdirp_kind [OF mu] .
      have "below t1 u1"
        unfolding below_def using K1 U1 su by (auto simp: below_def)
      moreover have "below u1 T"
        unfolding below_def using U1 Td uT by (auto simp: below_def)
      ultimately show ?thesis using False mu by auto
    qed
  qed
  then obtain u1 where
    u1: "if existsSync (cwd P) (fs u) ?ds then u1 = fs u else mkdirp (fs u) ?d = Inr u1"
    and tu: "below t1 u1" and u1T: "below u1 T"
    by blast
  have "kind u1 (butlast ?p) = IsDir"
    using tu pre(2) by (simp add: below_def)
  moreover have "kind u1 ?p \<noteq> IsDir"
  proof
    assume "kind u1 ?p = IsDir"
    then have "kind T ?p = IsDir" using u1T by (simp add: below_def)
    with Tp show False by simp
  qed
  ultimately obtain u2 where wu: "writeAt u1 ?p c = Inr u2"
    using writeAt_succeeds [OF pre(1)] by blast
  have U2: "kind u2 q = (if q = ?p then IsFile else kind u1 q)" for q
    using writeAt_kind [OF wu] .
  from writeFile_intro [OF u1 f wu] obtain u' where
    u': "writeFile P src c u = Inr u'" "fs u' = u2" by blast
  have "below (fs s') u2"
    unfolding below_def using K' U2 tu by (auto simp: below_def)
  moreover have "below u2 T"
    unfolding below_def using U2 Tp u1T by (auto simp: below_def)
  ultimately show ?thesis using u' by auto
qed

lemma writeAll_below: "writeAll P ws s = Inr s' \<Longrightarrow> below (fs s) (fs s')"
proof (induction ws arbitrary: s)
  case Nil
  then show ?case by (simp add: writeAll_def below_refl)
next
  case (Cons w ws)
  obtain src body where w: "w = (src, body)" by (cases w)
  from Cons.prems obtain s1 where s1: "writeFile P src body s = Inr s1"
    and rest: "writeAll P ws s1 = Inr s'"
    by (auto simp: w writeAll_Cons andThen_def split: sum.splits)
  from writeFile_below [OF s1] Cons.IH [OF rest] show ?case by (rule below_trans)
qed

lemma writeAll_simulation:
  assumes "writeAll P ws s = Inr s'"
    and "below (fs s) (fs u)" and "below (fs u) T" and "below (fs s') T"
  shows "\<exists>u'. writeAll P ws u = Inr u' \<and> below (fs s') (fs u') \<and> below (fs u') T"
  using assms
proof (induction ws arbitrary: s u)
  case Nil
  then show ?case by (simp add: writeAll_def)
next
  case (Cons w ws)
  obtain src body where w: "w = (src, body)" by (cases w)
  from Cons.prems(1) obtain s1 where s1: "writeFile P src body s = Inr s1"
    and rest: "writeAll P ws s1 = Inr s'"
    by (auto simp: w writeAll_Cons andThen_def split: sum.splits)
  have "below (fs s1) T"
    using writeAll_below [OF rest] Cons.prems(4) by (rule below_trans)
  from writeFile_simulation [OF s1 Cons.prems(2,3) this] obtain u1 where
    u1: "writeFile P src body u = Inr u1" "below (fs s1) (fs u1)" "below (fs u1) T" by blast
  from Cons.IH [OF rest u1(2,3) Cons.prems(4)] obtain u' where
    "writeAll P ws u1 = Inr u'" "below (fs s') (fs u')" "below (fs u') T" by blast
  then show ?case using u1(1) by (auto simp: w writeAll_Cons andThen_def)
qed

lemma properTree_child:
  "properTree (Dir es) \<Longrightarrow> map_of es k = Some ch \<Longrightarrow> properTree ch"
  by (auto dest!: map_of_SomeD)

lemma properTree_update:
  assumes "properTree (Dir es)" "plainSeg k" "properTree ch"
  shows "properTree (Dir (AList.update k ch es))"
proof -
  have "set (AList.update k ch es) \<subseteq> insert (k, ch) (set es)"
    by (induction es) auto
  then show ?thesis
    using assms by (auto simp: AList.distinct_update)
qed

lemma properTree_delete: "properTree (Dir es) \<Longrightarrow> properTree (Dir (AList.delete k es))"
proof -
  assume a: "properTree (Dir es)"
  then have "distinct (map fst (AList.delete k es))" by (simp add: AList.distinct_delete)
  moreover have "set (AList.delete k es) \<subseteq> set es" by (auto simp: AList.delete_eq)
  ultimately show ?thesis using a by auto
qed

lemma properTree_lookup: "properTree t \<Longrightarrow> lookup t p = Some n \<Longrightarrow> properTree n"
proof (induction p arbitrary: t)
  case Nil
  then show ?case by simp
next
  case (Cons a p)
  from Cons.prems obtain es ch where t: "t = Dir es" and ch: "map_of es a = Some ch"
    and l: "lookup ch p = Some n"
    by (auto split: node.splits option.splits)
  from Cons.IH [OF properTree_child [OF _ ch] l] Cons.prems(1) show ?case
    by (simp add: t)
qed

lemma properTree_removeAt: "properTree t \<Longrightarrow> properTree (removeAt t p)"
proof (induction t p rule: removeAt.induct)
  case (1 n)
  then show ?case by (cases n) auto
next
  case (2 n s)
  then show ?case by (cases n) (simp_all add: properTree_delete del: properTree.simps(2))
next
  case (3 n s v va)
  show ?case
  proof (cases n)
    case (File c)
    then show ?thesis by simp
  next
    case (Dir es)
    show ?thesis
    proof (cases "map_of es s")
      case None
      then show ?thesis using "3.prems" Dir by simp
    next
      case (Some ch)
      have k: "plainSeg s" using "3.prems" Dir Some by (auto dest!: map_of_SomeD)
      have "properTree (removeAt ch (v # va))"
        using "3.IH" [OF Dir Some] properTree_child [OF _ Some] "3.prems" Dir by simp
      from properTree_update [OF _ k this] "3.prems" Dir Some show ?thesis
        by (simp del: properTree.simps(2))
    qed
  qed
qed

lemma properTree_mkdirp:
  "properTree t \<Longrightarrow> \<forall>x \<in> set p. plainSeg x \<Longrightarrow> mkdirp t p = Inr t' \<Longrightarrow> properTree t'"
proof (induction p arbitrary: t t')
  case Nil
  then show ?case by (auto split: node.splits)
next
  case (Cons s ss)
  from Cons.prems(3) obtain es where t: "t = Dir es" by (cases t) auto
  let ?ch = "case map_of es s of None \<Rightarrow> Dir [] | Some ch \<Rightarrow> ch"
  from Cons.prems(3) t obtain ch' where m: "mkdirp ?ch ss = Inr ch'"
    and t': "t' = Dir (AList.update s ch' es)"
    by (auto split: sum.splits)
  have "properTree ?ch"
    using Cons.prems(1) t by (auto split: option.splits dest!: map_of_SomeD)
  from Cons.IH [OF this _ m] Cons.prems(2) have "properTree ch'" by simp
  from properTree_update [OF _ _ this, of es s] Cons.prems(1,2) t show ?case
    by (simp add: t' del: properTree.simps(2))
qed

lemma properTree_writeAt:
  "properTree t \<Longrightarrow> \<forall>x \<in> set p. plainSeg x \<Longrightarrow> writeAt t p c = Inr t' \<Longrightarrow> properTree t'"
proof (induction t p c arbitrary: t' rule: writeAt.induct)
  case (1 n content)
  then show ?case by simp
next
  case (2 n s content)
  then obtain es where n: "n = Dir es" and t': "t' = Dir (AList.update s (File content) es)"
    by (auto split: node.splits option.splits)
  from properTree_update [of es s "File content"] "2.prems"(1,2) show ?case
    by (simp add: n t' del: properTree.simps(2))
next
  case (3 n s v va content)
  from "3.prems"(3) obtain es ch ch' where n: "n = Dir es" and ch: "map_of es s = Some ch"
    and w: "writeAt ch (v # va) content = Inr ch'" and t': "t' = Dir (AList.update s ch' es)"
    by (auto split: node.splits option.splits sum.splits)
  have "properTree ch'"
    using "3.IH" [OF n ch _ _ w] properTree_child [OF _ ch] "3.prems"(1,2) n by simp
  from properTree_update [OF _ _ this, of es s] "3.prems"(1,2) n show ?case
    by (simp add: t' del: properTree.simps(2))
qed

lemma properTree_writeFile:
  assumes "writeFile P src c s = Inr s'" "properTree (fs s)"
  shows "properTree (fs s')"
proof -
  from assms(1) obtain t1 where
    t1: "if existsSync (cwd P) (fs s) (pathDirname (pathJoin (root P) src)) then t1 = fs s
     else mkdirp (fs s) (resolveSegs (cwd P) (pathDirname (pathJoin (root P) src))) = Inr t1"
    and w: "writeAt t1 (target P src) c = Inr (fs s')"
    by (rule writeFile_elim)
  have "properTree t1"
    using t1 assms(2) properTree_mkdirp [of "fs s" _ t1] resolveSegs_plain
    by (auto split: if_splits)
  then show ?thesis
    using properTree_writeAt [OF _ _ w] resolveSegs_plain by (auto simp: target_def)
qed

lemma properTree_writeAll:
  "writeAll P ws s = Inr s' \<Longrightarrow> properTree (fs s) \<Longrightarrow> properTree (fs s')"
proof (induction ws arbitrary: s)
  case Nil
  then show ?case by (simp add: writeAll_def)
next
  case (Cons w ws)
  obtain src body where w: "w = (src, body)" by (cases w)
  from Cons.prems(1) obtain s1 where s1: "writeFile P src body s = Inr s1"
    and rest: "writeAll P ws s1 = Inr s'"
    by (auto simp: w writeAll_Cons andThen_def split: sum.splits)
  from Cons.IH [OF rest properTree_writeFile [OF s1 Cons.prems(2)]] show ?case .
qed

lemma properTree_cleanEntry:
  "cleanEntry P n s = Inr s' \<Longrightarrow> properTree (fs s) \<Longrightarrow> properTree (fs s')"
  by (auto simp: cleanEntry_def Let_def fsCall_def unlinkSync_def removeSync_def
      properTree_removeAt split: if_splits sum.splits node.splits)

lemma properTree_forEach_cleanEntry:
  "forEach (cleanEntry P) ns s = Inr s' \<Longrightarrow> properTree (fs s) \<Longrightarrow> properTree (fs s')"
proof (induction ns arbitrary: s)
  case Nil
  then show ?case by simp
next
  case (Cons n ns)
  from Cons.prems(1) obtain s1 where s1: "cleanEntry P n s = Inr s1"
    and rest: "forEach (cleanEntry P) ns s1 = Inr s'"
    by (auto split: sum.splits)
  from Cons.IH [OF rest properTree_cleanEntry [OF s1 Cons.prems(2)]] show ?case .
qed

lemma properTree_clean: "clean P s = Inr s' \<Longrightarrow> properTree (fs s) \<Longrightarrow> properTree (fs s')"
  by (auto simp: clean_def andThen_def split: if_splits sum.splits
      dest: properTree_forEach_cleanEntry)

lemma removeAt_kind:
  "p \<noteq> [] \<Longrightarrow> kind (removeAt t p) q = (if prefix p q then Absent else kind t q)"
proof (induction t p arbitrary: q rule: removeAt.induct)
  case (1 n)
  then show ?case by simp
next
  case (2 n s)
  then show ?case
    by (cases q) (auto simp: kind_Nil kind_Cons AList.delete_conv' split: node.splits)
next
  case (3 n s v va)
  show ?case
  proof (cases n)
    case (File c)
    then show ?thesis by (cases q) (auto simp: kind_Cons)
  next
    case (Dir es)
    show ?thesis
    proof (cases "map_of es s")
      case None
      then show ?thesis by (cases q) (auto simp: Dir kind_Cons)
    next
      case (Some ch)
      show ?thesis
      proof (cases q)
        case Nil
        then show ?thesis by (simp add: Dir Some kind_Nil)
      next
        case (Cons q1 qs)
        show ?thesis
        proof (cases "q1 = s")
          case True
          from "3.IH" [OF Dir Some, of qs] show ?thesis
            by (simp add: Dir Some Cons True kind_Cons AList.update_conv')
        next
          case False
          then show ?thesis
            by (simp add: Dir Some Cons kind_Cons AList.update_conv')
        qed
      qed
    qed
  qed
qed

lemma forEach_cleanEntry_kind:
  assumes "lookup (fs s) (resolveSegs (cwd P) (root P)) = Some (Dir es)"
    and "distinct ns"
    and "\<forall>n \<in> set ns. n \<noteq> [] \<and> CHR ''/'' \<notin> set n"
    and "\<forall>n \<in> set ns. \<not> startsWithDot n \<longrightarrow> n \<in> fst ` set es"
  shows "\<exists>s'. forEach (cleanEntry P) ns s = Inr s'
    \<and> (\<forall>q. kind (fs s') q
          = (if \<exists>n \<in> set ns. \<not> startsWithDot n \<and> prefix (resolveSegs (cwd P) (root P) @ [n]) q
             then Absent else kind (fs s) q))"
  using assms
proof (induction ns arbitrary: s es)
  case Nil
  then show ?case by simp
next
  case (Cons n ns)
  let ?R = "resolveSegs (cwd P) (root P)"
  show ?case
  proof (cases "startsWithDot n")
    case True
    have c: "cleanEntry P n s = Inr s" using True by (simp add: cleanEntry_def)
    from Cons.IH [of s es] Cons.prems obtain s' where
      "forEach (cleanEntry P) ns s = Inr s'"
      "\<forall>q. kind (fs s') q
          = (if \<exists>n \<in> set ns. \<not> startsWithDot n \<and> prefix (?R @ [n]) q
             then Absent else kind (fs s) q)"
      by auto
    then show ?thesis using c True by auto
  next
    case False
    with Cons.prems obtain x where x: "map_of es n = Some x"
      by (metis list.set_intros(1) map_of_eq_None_iff not_Some_eq)
    have "n \<noteq> ''.''" "n \<noteq> ''..''" using False by (auto simp: startsWithDot_def)
    then have pl: "plainSeg n" using Cons.prems(3) by (simp add: plainSeg_def)
    let ?s1 = "s\<lparr>fs := removeAt (fs s) (?R @ [n])\<rparr>"
    have c: "cleanEntry P n s = Inr ?s1"
      using cleanEntry_visible [OF Cons.prems(1) x pl False] .
    have l1: "lookup (fs ?s1) ?R = Some (Dir (AList.delete n es))"
      using removeAt_lookup_parent [OF Cons.prems(1)] by simp
    have "fst ` set (AList.delete n es) = fst ` set es - {n}"
      using AList.delete_keys [of n es] by (metis set_map set_removeAll)
    then have d: "\<forall>m \<in> set ns. \<not> startsWithDot m \<longrightarrow> m \<in> fst ` set (AList.delete n es)"
      using Cons.prems(2,4) by auto
    from Cons.IH [OF l1 _ _ d] Cons.prems(2,3) obtain s' where s':
      "forEach (cleanEntry P) ns ?s1 = Inr s'"
      "\<forall>q. kind (fs s') q
          = (if \<exists>n \<in> set ns. \<not> startsWithDot n \<and> prefix (?R @ [n]) q
             then Absent else kind (fs ?s1) q)"
      by auto
    have k1: "kind (fs ?s1) q = (if prefix (?R @ [n]) q then Absent else kind (fs s) q)" for q
      using removeAt_kind [of "?R @ [n]" "fs s" q] by simp
    show ?thesis
      using c s' k1 False by auto
  qed
qed

lemma clean_kind:
  assumes "root P \<noteq> []"
    and "lookup (fs s) (resolveSegs (cwd P) (root P)) = Some (Dir es)"
    and "properTree (fs s)"
  shows "\<exists>s'. clean P s = Inr s'
    \<and> (\<forall>q. kind (fs s') q
          = (if \<exists>n \<in> fst ` set es.
                  \<not> startsWithDot n \<and> prefix (resolveSegs (cwd P) (root P) @ [n]) q
             then Absent else kind (fs s) q))"
proof -
  let ?R = "resolveSegs (cwd P) (root P)"
  have pt: "properTree (Dir es)" using properTree_lookup [OF assms(3,2)] .
  then have d: "distinct (map fst es)" and v: "\<forall>n \<in> set (map fst es). n \<noteq> [] \<and> CHR ''/'' \<notin> set n"
    by (auto simp: plainSeg_def)
  have st: "statSync (cwd P) (fs s) (root P) = Inr (Dir es)"
    using assms(1,2) by (simp add: statSync_def)
  from forEach_cleanEntry_kind [OF assms(2) d v] obtain s1 where s1:
    "forEach (cleanEntry P) (map fst es) s = Inr s1"
    "\<forall>q. kind (fs s1) q
          = (if \<exists>n \<in> set (map fst es). \<not> startsWithDot n \<and> prefix (?R @ [n]) q
             then Absent else kind (fs s) q)"
    by auto
  have "clean P s = Inr (s1\<lparr>files := []\<rparr>)"
    using st s1(1)
    by (simp add: clean_def pathExistsSync_def existsSync_def readdirSync_def andThen_def)
  then show ?thesis using s1(2) by auto
qed

lemma readFile_kind: "readFile t q \<noteq> None \<longleftrightarrow> kind t q = IsFile"
  by (auto simp: readFile_def kind_def split: option.splits node.splits)

lemma kind_child_absent: "kind t R \<noteq> IsDir \<Longrightarrow> kind t (R @ [n]) = Absent"
  using kind_above [of t R "[n]"] by auto

lemma clean_no_visible:
  assumes "properTree (fs s0)" and "clean P s0 = Inr c0" and "root P \<noteq> []"
    and "\<not> startsWithDot n"
  shows "kind (fs c0) (resolveSegs (cwd P) (root P) @ [n]) = Absent"
proof -
  let ?R = "resolveSegs (cwd P) (root P)"
  show ?thesis
  proof (cases "lookup (fs s0) ?R")
    case None
    then have "clean P s0 = Inr s0"
      by (simp add: clean_def pathExistsSync_def existsSync_def statSync_def)
    with assms(2) have "c0 = s0" by simp
    then show ?thesis using None by (simp add: kind_def lookup_append)
  next
    case (Some x)
    show ?thesis
    proof (cases x)
      case (File c)
      have "clean P s0 = Inr s0 \<or> (\<exists>e. clean P s0 = Inl e)"
        using Some File assms(3)
        by (auto simp: clean_def pathExistsSync_def existsSync_def statSync_def readdirSync_def)
      with assms(2) have "c0 = s0" by auto
      then show ?thesis using Some File by (simp add: kind_def lookup_append)
    next
      case (Dir es0)
      from clean_kind [OF assms(3) _ assms(1), of es0] Some Dir assms(2) have
        k: "kind (fs c0) q
          = (if \<exists>m \<in> fst ` set es0. \<not> startsWithDot m \<and> prefix (?R @ [m]) q
             then Absent else kind (fs s0) q)" for q
        by auto
      show ?thesis
      proof (cases "n \<in> fst ` set es0")
        case True
        then show ?thesis using k [of "?R @ [n]"] assms(4) by auto
      next
        case False
        then have "map_of es0 n = None" by (simp add: map_of_eq_None_iff)
        then have "kind (fs s0) (?R @ [n]) = Absent"
          using Some Dir by (simp add: kind_def lookup_append)
        then show ?thesis using k [of "?R @ [n]"] by simp
      qed
    qed
  qed
qed

lemma buildCode_again:
  assumes "properTree (fs s0)" and "buildCode P s0 = Inr s1"
  shows "\<exists>s2. buildCode P s1 = Inr s2"
proof -
  let ?R = "resolveSegs (cwd P) (root P)"
  let ?W = "buildSources P"
  let ?T = "fs s1"
  from assms(2) obtain c0 where c0: "clean P s0 = Inr c0" and w: "writeAll P ?W c0 = Inr s1"
    by (auto simp: buildCode_writeAll andThen_def split: sum.splits)
  have c0T: "below (fs c0) ?T" using writeAll_below [OF w] .
  have ptT: "properTree ?T"
    using properTree_writeAll [OF w properTree_clean [OF c0 assms(1)]] .
  have "\<exists>c1. clean P s1 = Inr c1 \<and> below (fs c0) (fs c1) \<and> below (fs c1) ?T"
  proof (cases "root P = []")
    case True
    then have "clean P s1 = Inr s1"
      by (simp add: clean_def pathExistsSync_def existsSync_def statSync_def)
    then show ?thesis using c0T by (auto simp: below_refl)
  next
    case False
    have "(''base-application.js'', render P ''base-application.js.tpl'' (Platforms (platformNames P)))
            \<in> set ?W"
      by (simp add: buildSources_def baseAppSources_def)
    from lastWrite_Some [OF this, of P] have "readFile ?T (target P ''base-application.js'') \<noteq> None"
      using writeAll_readFile [OF w, of "target P ''base-application.js''"] by auto
    then have "kind ?T (target P ''base-application.js'') = IsFile"
      by (simp only: readFile_kind)
    then have "kind ?T (?R @ [''base-application.js'']) = IsFile"
      by (simp add: target_plain plainSeg_base_files)
    then have "kind ?T ?R = IsDir"
      using kind_above [of ?T ?R "[''base-application.js'']"] by simp
    then obtain es where es: "lookup ?T ?R = Some (Dir es)"
      by (auto simp: kind_def split: option.splits node.splits)
    from clean_kind [OF False es ptT] obtain c1 where c1: "clean P s1 = Inr c1"
      and k1: "\<And>q. kind (fs c1) q
          = (if \<exists>n \<in> fst ` set es. \<not> startsWithDot n \<and> prefix (?R @ [n]) q
             then Absent else kind ?T q)"
      by auto
    have "below (fs c1) ?T"
      unfolding below_def using k1 by auto
    moreover have "below (fs c0) (fs c1)"
      unfolding below_def
    proof (intro allI impI)
      fix q assume a: "kind (fs c0) q \<noteq> Absent"
      have "\<not> (\<exists>n \<in> fst ` set es. \<not> startsWithDot n \<and> prefix (?R @ [n]) q)"
      proof
        assume "\<exists>n \<in> fst ` set es. \<not> startsWithDot n \<and> prefix (?R @ [n]) q"
        then obtain n rest where n: "\<not> startsWithDot n" and q: "q = (?R @ [n]) @ rest"
          by (auto simp: prefix_def)
        have "kind (fs c0) (?R @ [n]) \<noteq> Absent"
        proof (cases "rest = []")
          case True
          then show ?thesis using a q by simp
        next
          case False
          from kind_above [OF _ False, of "fs c0" "?R @ [n]"] a q show ?thesis by simp
        qed
        with clean_no_visible [OF assms(1) c0 \<open>root P \<noteq> []\<close> n] show False by simp
      qed
      then have "kind (fs c1) q = kind ?T q" using k1 [of q] by auto
      also have "\<dots> = kind (fs c0) q" using c0T a by (simp add: below_def)
      finally show "kind (fs c1) q = kind (fs c0) q" .
    qed
    ultimately show ?thesis using c1 by auto
  qed
  then obtain c1 where c1: "clean P s1 = Inr c1" "below (fs c0) (fs c1)" "below (fs c1) ?T"
    by blast
  from writeAll_simulation [OF w c1(2,3) below_refl] obtain s2 where
    "writeAll P ?W c1 = Inr s2" by blast
  then show ?thesis using c1(1) by (auto simp: buildCode_writeAll andThen_def)
qed

text \<open>
  Claim C1. When \<open>buildCode\<close> has returned and runs again with the same provider (the
  same configuration, package descriptor and extensions), every file it writes, among
  them \<open>base-application.js\<close>, \<open>app.js\<close> and \<open>define.js\<close>, holds after the second run the
  text it held after the first. The second run does return when the first one started
  from a proper tree.
\<close>

theorem buildCode_twice:
  assumes "buildCode P s0 = Inr s1"
  shows "{''base-application.js'', ''app.js'', ''define.js''} \<subseteq> fst ` set (buildSources P)
    \<and> (properTree (fs s0) \<longrightarrow> (\<exists>s2. buildCode P s1 = Inr s2))
    \<and> (\<forall>s2. buildCode P s1 = Inr s2 \<longrightarrow>
          (\<forall>src \<in> fst ` set (buildSources P).
             readFile (fs s1) (target P src) \<noteq> None
             \<and> readFile (fs s2) (target P src) = readFile (fs s1) (target P src)))"
proof (intro conjI)
  show "{''base-application.js'', ''app.js'', ''define.js''} \<subseteq> fst ` set (buildSources P)"
    by (simp add: buildSources_def baseAppSources_def)
  show "properTree (fs s0) \<longrightarrow> (\<exists>s2. buildCode P s1 = Inr s2)"
    using buildCode_again [OF _ assms] by blast
  show "\<forall>s2. buildCode P s1 = Inr s2 \<longrightarrow>
          (\<forall>src \<in> fst ` set (buildSources P).
             readFile (fs s1) (target P src) \<noteq> None
             \<and> readFile (fs s2) (target P src) = readFile (fs s1) (target P src))"
  proof (intro allI impI ballI)
    fix s2 src
    assume b2: "buildCode P s1 = Inr s2" and src: "src \<in> fst ` set (buildSources P)"
    from assms b2 obtain c0 c1 where 1: "writeAll P (buildSources P) c0 = Inr s1"
      and 2: "writeAll P (buildSources P) c1 = Inr s2"
      by (auto simp: buildCode_writeAll andThen_def split: sum.splits)
    from src obtain body where "(src, body) \<in> set (buildSources P)" by auto
    from lastWrite_Some [OF this, of P] obtain c
      where "lastWrite P (buildSources P) (target P src) = Some c" by blast
    then show "readFile (fs s1) (target P src) \<noteq> None
             \<and> readFile (fs s2) (target P src) = readFile (fs s1) (target P src)"
      using writeAll_readFile [OF 1, of "target P src"] writeAll_readFile [OF 2, of "target P src"]
      by simp
  qed
qed

text \<open>The two runs in the example leave \<open>/out/app.js\<close> with the same text.\<close>

theorem buildCode_twice_witness:
  "buildCode exampleProvider exampleState = Inr exampleBuilt
   \<and> properTree (fs exampleState)
   \<and> buildCode exampleProvider exampleBuilt
       = Inr (exampleBuilt\<lparr>emitted := exampleEvents @ exampleEvents\<rparr>)
   \<and> readFile (fs (exampleBuilt\<lparr>emitted := exampleEvents @ exampleEvents\<rparr>))
         (target exampleProvider ''app.js'')
       = readFile (fs exampleBuilt) (target exampleProvider ''app.js'')
   \<and> readFile (fs exampleBuilt) (target exampleProvider ''app.js'') \<noteq> None"
proof -
  have 1: "buildCode exampleProvider exampleState = Inr exampleBuilt"
    by code_simp
  have 2: "buildCode exampleProvider exampleBuilt
           = Inr (exampleBuilt\<lparr>emitted := exampleEvents @ exampleEvents\<rparr>)"
    by code_simp
  have 3: "properTree (fs exampleState)"
    by code_simp
  from buildCode_twice [OF 1] 1 2 3 show ?thesis by auto
qed

end
